theory Spec2Isabelle
  imports Main "HOL-Library.List_Lexorder" "HOL-Library.Char_ord" "HOL-Library.Multiset"
begin

text \<open>
  A model of the core of cliffnotes: the classifier (prompt.ts), the cache store (cache.ts),
  the analyzer with its semaphore (analyzer.ts), the discovery of files and the folder tree
  (discovery.ts), and the part of the entry point (index.ts) that connects them. The
  definitions come first, module by module; the properties follow.
\<close>

section \<open>Strings\<close>

text \<open>
  A JavaScript string is modelled as a \<^typ>\<open>string\<close>, one \<^typ>\<open>char\<close> for each code unit.
  Only the string operations the sources call are modelled, each as a recursive function
  that the simplifier can run.
\<close>

text \<open>\<^verbatim>\<open>s.startsWith(t)\<close>\<close>

fun startsWith :: "string \<Rightarrow> string \<Rightarrow> bool" where
  "startsWith s [] = True"
| "startsWith [] (c # t) = False"
| "startsWith (a # s) (c # t) = (a = c \<and> startsWith s t)"

text \<open>\<^verbatim>\<open>s.endsWith(t)\<close>\<close>

definition endsWith :: "string \<Rightarrow> string \<Rightarrow> bool" where
  "endsWith s t = startsWith (rev s) (rev t)"

text \<open>\<^verbatim>\<open>s.includes(t)\<close>: \<open>t\<close> occurs in \<open>s\<close> as a contiguous run.\<close>

fun includes_js :: "string \<Rightarrow> string \<Rightarrow> bool" where
  "includes_js [] t = (t = [])"
| "includes_js (a # s) t = (startsWith (a # s) t \<or> includes_js s t)"

text \<open>
  \<^verbatim>\<open>s.toLowerCase()\<close>. The twenty-six ASCII capitals are mapped to their small letters and
  every other code unit is kept; the lower-casing of letters outside ASCII is not modelled.
\<close>

definition upperLetters :: string where
  "upperLetters = ''ABCDEFGHIJKLMNOPQRSTUVWXYZ''"

definition lowerLetters :: string where
  "lowerLetters = ''abcdefghijklmnopqrstuvwxyz''"

definition toLowerChar :: "char \<Rightarrow> char" where
  "toLowerChar c = (case map_of (zip upperLetters lowerLetters) c of Some d \<Rightarrow> d | None \<Rightarrow> c)"

definition toLowerCase :: "string \<Rightarrow> string" where
  "toLowerCase s = map toLowerChar s"

text \<open>
  \<^verbatim>\<open>s.split("/")\<close>: the pieces between the separators; the result is never empty, and the
  empty string splits into one empty piece.
\<close>

fun split_js :: "string \<Rightarrow> string list" where
  "split_js [] = [[]]"
| "split_js (c # s) =
     (if c = CHR ''/'' then [] # split_js s
      else (case split_js s of p # ps \<Rightarrow> (c # p) # ps | [] \<Rightarrow> [[c]]))"

text \<open>\<^verbatim>\<open>parts.join("/")\<close>\<close>

fun join_js :: "string list \<Rightarrow> string" where
  "join_js [] = []"
| "join_js [p] = p"
| "join_js (p # q # ps) = p @ CHR ''/'' # join_js (q # ps)"

text \<open>\<^verbatim>\<open>content.split("\n").length\<close>: one more than the number of line feeds.\<close>

definition lineCount :: "string \<Rightarrow> nat" where
  "lineCount content = Suc (length (filter (\<lambda>c. c = CHR 0x0A) content))"

section \<open>Types (types.ts)\<close>

datatype FileCategory =
  schema | router | component | hook | util | service | config | type | test | other

text \<open>\<^verbatim>\<open>tokens: { input, output }\<close>\<close>

record Tokens =
  input_tokens :: int
  output_tokens :: int

record FileAnalysis =
  path :: string
  relativePath :: string
  category :: FileCategory
  summary :: string
  hash :: string
  tokens :: Tokens

text \<open>
  The fields of a cache entry carry the prefix \<open>entry_\<close> where the source gives them the
  name of a \<open>FileAnalysis\<close> field.
\<close>

record CacheEntry =
  entry_hash :: string
  entry_summary :: string
  entry_category :: FileCategory
  analyzedAt :: string
  entry_tokens :: Tokens

text \<open>
  \<^verbatim>\<open>entries: Record<string, CacheEntry>\<close> is an association list in insertion order, the
  order in which \<^verbatim>\<open>Object.keys\<close> lists keys that are not array indices (the paths of source
  files, which end in an extension, never are).
\<close>

type_synonym entries = "(string \<times> CacheEntry) list"

record CacheData =
  version :: int
  entries :: entries

section \<open>Classifier (prompt.ts)\<close>

text \<open>\<^verbatim>\<open>/^use[A-Z]/.test(name)\<close>\<close>

definition isHookName :: "string \<Rightarrow> bool" where
  "isHookName fileName =
     (startsWith fileName ''use'' \<and>
      (case drop 3 fileName of [] \<Rightarrow> False | c # _ \<Rightarrow> c \<in> set upperLetters))"

text \<open>
  \<^verbatim>\<open>detectCategory(filePath, content)\<close>: the chain of \<^verbatim>\<open>if\<close> statements in the order of the
  source, each needle spelled as the source spells it.
\<close>

definition detectCategory :: "string \<Rightarrow> string \<Rightarrow> FileCategory" where
  "detectCategory filePath content =
    (let lowerPath = toLowerCase filePath;
         lowerContent = toLowerCase content
     in
       if includes_js lowerPath ''schema.prisma'' \<or>
          includes_js lowerPath ''schema.ts'' \<or>
          includes_js lowerPath ''/schema/'' \<or>
          includes_js lowerPath ''/models/'' \<or>
          includes_js lowerContent ''datasource '' \<or>
          includes_js lowerContent ''createtable'' \<or>
          includes_js lowerContent ''pgTable('' \<or>
          includes_js lowerContent ''sqlitetable('' \<or>
          includes_js lowerContent ''mysqltable(''
       then schema
       else if includes_js lowerPath ''/api/'' \<or>
          includes_js lowerPath ''/routes/'' \<or>
          includes_js lowerPath ''/router'' \<or>
          includes_js lowerPath ''.router.'' \<or>
          includes_js lowerContent ''createtrpcrouter'' \<or>
          includes_js lowerContent ''router.get('' \<or>
          includes_js lowerContent ''router.post('' \<or>
          includes_js lowerContent ''app.get('' \<or>
          includes_js lowerContent ''app.post('' \<or>
          includes_js lowerContent ''export async function get('' \<or>
          includes_js lowerContent ''export async function post('' \<or>
          includes_js lowerContent ''hono''
       then router
       else if includes_js lowerPath ''/hooks/'' \<or>
          includes_js lowerPath ''.hook.'' \<or>
          isHookName (last (split_js filePath))
       then hook
       else if endsWith lowerPath ''.tsx'' \<or>
          endsWith lowerPath ''.jsx'' \<or>
          includes_js lowerPath ''/components/'' \<or>
          includes_js lowerPath ''/pages/'' \<or>
          includes_js lowerPath ''/app/'' \<or>
          includes_js lowerContent ''export default function'' \<or>
          (includes_js lowerContent ''export function'' \<and> includes_js lowerContent ''return ('')
       then component
       else if includes_js lowerPath ''/types/'' \<or>
          includes_js lowerPath ''.types.'' \<or>
          includes_js lowerPath ''/interfaces/'' \<or>
          (includes_js lowerContent ''export interface'' \<and> \<not> includes_js lowerContent ''function'')
       then type
       else if includes_js lowerPath ''config'' \<or>
          includes_js lowerPath ''.config.'' \<or>
          includes_js lowerPath ''/env''
       then config
       else if includes_js lowerPath ''/services/'' \<or>
          includes_js lowerPath ''/lib/'' \<or>
          includes_js lowerPath ''.service.'' \<or>
          includes_js lowerContent ''class '' \<or>
          includes_js lowerContent ''async function''
       then service
       else if includes_js lowerPath ''/utils/'' \<or>
          includes_js lowerPath ''/helpers/'' \<or>
          includes_js lowerPath ''.util.'' \<or>
          includes_js lowerPath ''.helper.''
       then util
       else if includes_js lowerPath ''.test.'' \<or>
          includes_js lowerPath ''.spec.'' \<or>
          includes_js lowerPath ''__tests__''
       then test
       else other)"

section \<open>Cache store (cache.ts)\<close>

definition CACHE_VERSION :: int where
  "CACHE_VERSION = 1"

text \<open>
  \<^verbatim>\<open>cache.entries[relativePath]\<close>; \<open>None\<close> is \<^verbatim>\<open>undefined\<close>. Only the keys of the object
  itself are looked up: a name that every object inherits, such as \<open>constructor\<close>, is not
  modelled (no path of a source file is such a name).
\<close>

definition getCacheEntry :: "CacheData \<Rightarrow> string \<Rightarrow> CacheEntry option" where
  "getCacheEntry cache rel = map_of (entries cache) rel"

text \<open>
  \<^verbatim>\<open>obj[key] = value\<close>: an existing key keeps its place and takes the new value, a new key
  goes to the end.
\<close>

fun assign :: "'k \<Rightarrow> 'v \<Rightarrow> ('k \<times> 'v) list \<Rightarrow> ('k \<times> 'v) list" where
  "assign k v [] = [(k, v)]"
| "assign k v ((k', v') # kvs) = (if k' = k then (k, v) # kvs else (k', v') # assign k v kvs)"

definition setCacheEntry :: "CacheData \<Rightarrow> string \<Rightarrow> CacheEntry \<Rightarrow> CacheData" where
  "setCacheEntry cache rel entry = cache\<lparr>entries := assign rel entry (entries cache)\<rparr>"

definition isCacheValid :: "CacheEntry option \<Rightarrow> string \<Rightarrow> bool" where
  "isCacheValid entry currentHash = (entry \<noteq> None \<and> entry_hash (the entry) = currentHash)"

text \<open>\<^verbatim>\<open>delete obj[key]\<close>\<close>

definition deleteKey :: "'k \<Rightarrow> ('k \<times> 'v) list \<Rightarrow> ('k \<times> 'v) list" where
  "deleteKey k kvs = filter (\<lambda>kv. fst kv \<noteq> k) kvs"

text \<open>
  \<^verbatim>\<open>pruneCache(cache, currentFiles)\<close>: the loop runs over the keys as \<^verbatim>\<open>Object.keys\<close> listed
  them before the first deletion; the state of the loop is the entries left and the removed
  paths so far. The result is the cache after the deletions, with the returned list.
\<close>

definition pruneStep :: "string list \<Rightarrow> string \<Rightarrow> entries \<times> string list \<Rightarrow> entries \<times> string list" where
  "pruneStep currentFiles cachedPath st =
     (if cachedPath \<notin> set currentFiles
      then (deleteKey cachedPath (fst st), snd st @ [cachedPath])
      else st)"

definition pruneCache :: "CacheData \<Rightarrow> string list \<Rightarrow> CacheData \<times> string list" where
  "pruneCache cache currentFiles =
     (let st = fold (pruneStep currentFiles) (map fst (entries cache)) (entries cache, [])
      in (cache\<lparr>entries := fst st\<rparr>, snd st))"

subsection \<open>Loading the cache file\<close>

text \<open>
  What \<^verbatim>\<open>JSON.parse\<close> returns. Numbers are integers here: the only number the code looks at
  is the version, compared with \<^verbatim>\<open>!==\<close> against the integer constant.
\<close>

datatype json =
  JNull | JBool bool | JNum int | JStr string | JArr "json list" | JObj "(string \<times> json) list"

datatype js_error = TypeError | SyntaxError | IOError

text \<open>
  \<^verbatim>\<open>data.version\<close>: reading a property of \<^verbatim>\<open>null\<close> throws; a primitive or an array has no
  such property, and the read gives \<^verbatim>\<open>undefined\<close> (\<open>None\<close>).
\<close>

fun versionOf :: "json \<Rightarrow> js_error + json option" where
  "versionOf JNull = Inl TypeError"
| "versionOf (JObj kvs) = Inr (map_of kvs ''version'')"
| "versionOf _ = Inr None"

text \<open>\<^verbatim>\<open>{ version: CACHE_VERSION, entries: {} }\<close>\<close>

definition emptyCache :: json where
  "emptyCache = JObj [(''version'', JNum CACHE_VERSION), (''entries'', JObj [])]"

text \<open>
  \<^verbatim>\<open>loadCache(cachePath)\<close>. The file system and the parser are parameters: \<^verbatim>\<open>existsSync\<close>,
  \<^verbatim>\<open>readFile\<close> (which may throw) and \<^verbatim>\<open>JSON.parse\<close> (which may throw). The cast
  \<^verbatim>\<open>as CacheData\<close> checks nothing, so the value returned is the parsed value itself.
  \<open>loadCacheBody\<close> is the block under \<^verbatim>\<open>try\<close>; \<open>loadCache\<close> adds the test before it and
  the \<^verbatim>\<open>catch\<close>.
\<close>

definition loadCacheBody ::
  "(string \<Rightarrow> js_error + string) \<Rightarrow> (string \<Rightarrow> js_error + json) \<Rightarrow> string \<Rightarrow> js_error + json" where
  "loadCacheBody readFile JSON_parse cachePath =
     (case readFile cachePath of
        Inl e \<Rightarrow> Inl e
      | Inr raw \<Rightarrow>
          (case JSON_parse raw of
             Inl e \<Rightarrow> Inl e
           | Inr data \<Rightarrow>
               (case versionOf data of
                  Inl e \<Rightarrow> Inl e
                | Inr v \<Rightarrow> if v \<noteq> Some (JNum CACHE_VERSION) then Inr emptyCache else Inr data)))"

definition loadCache ::
  "(string \<Rightarrow> bool) \<Rightarrow> (string \<Rightarrow> js_error + string) \<Rightarrow> (string \<Rightarrow> js_error + json) \<Rightarrow> string
     \<Rightarrow> js_error + json" where
  "loadCache existsSync readFile JSON_parse cachePath =
     (if \<not> existsSync cachePath then Inr emptyCache
      else (case loadCacheBody readFile JSON_parse cachePath of
              Inl e \<Rightarrow> Inr emptyCache
            | Inr data \<Rightarrow> Inr data))"

section \<open>Analyzer (analyzer.ts)\<close>

subsection \<open>Semaphore\<close>

text \<open>
  The class \<^verbatim>\<open>Semaphore\<close>. The queue holds the \<^verbatim>\<open>resolve\<close> callbacks of the pending
  \<^verbatim>\<open>acquire\<close> promises; a callback is named by the number of the task that awaits it.
  \<^verbatim>\<open>maxConcurrent\<close> is an integer (the value \<^verbatim>\<open>NaN\<close>, which \<^verbatim>\<open>parseInt\<close> can give, is not
  modelled).
\<close>

record Semaphore =
  queue :: "nat list"
  running :: int
  maxConcurrent :: int

definition newSemaphore :: "int \<Rightarrow> Semaphore" where
  "newSemaphore c = \<lparr>queue = [], running = 0, maxConcurrent = c\<rparr>"

text \<open>
  \<^verbatim>\<open>acquire()\<close> called by task \<open>t\<close>: the semaphore afterwards, and whether the promise
  returned is already resolved (\<open>True\<close>) or waits in the queue (\<open>False\<close>).
\<close>

definition acquire :: "nat \<Rightarrow> Semaphore \<Rightarrow> Semaphore \<times> bool" where
  "acquire t sem =
     (if running sem < maxConcurrent sem
      then (sem\<lparr>running := running sem + 1\<rparr>, True)
      else (sem\<lparr>queue := queue sem @ [t]\<rparr>, False))"

text \<open>
  \<^verbatim>\<open>release()\<close>: the semaphore afterwards, and the task whose callback \<^verbatim>\<open>next()\<close> was
  called, if \<^verbatim>\<open>queue.shift()\<close> gave one.
\<close>

definition release :: "Semaphore \<Rightarrow> Semaphore \<times> nat option" where
  "release sem =
     (let sem1 = sem\<lparr>running := running sem - 1\<rparr>
      in case queue sem1 of
           [] \<Rightarrow> (sem1, None)
         | next # rest \<Rightarrow> (sem1\<lparr>queue := rest, running := running sem1 + 1\<rparr>, Some next))"

subsection \<open>Interleavings of acquire and release\<close>

text \<open>
  A history of calls on one semaphore. Beside the semaphore it records, for the statement of
  properties only, the tasks that hold a slot, the tasks in the order they were admitted and
  the tasks in the order they called \<^verbatim>\<open>acquire\<close>. A task may release only a slot it holds:
  any other release is not a step (\<open>None\<close>).
\<close>

datatype sem_event = Acquire nat | Release nat

record sem_history =
  sem :: Semaphore
  holders :: "nat list"
  admitted :: "nat list"
  requested :: "nat list"

definition sem_init :: "int \<Rightarrow> sem_history" where
  "sem_init c = \<lparr>sem = newSemaphore c, holders = [], admitted = [], requested = []\<rparr>"

fun sem_step :: "sem_event \<Rightarrow> sem_history \<Rightarrow> sem_history option" where
  "sem_step (Acquire t) h =
     (let (sem', resolved) = acquire t (sem h)
      in Some (h\<lparr>sem := sem',
                 holders := (if resolved then holders h @ [t] else holders h),
                 admitted := (if resolved then admitted h @ [t] else admitted h),
                 requested := requested h @ [t]\<rparr>))"
| "sem_step (Release t) h =
     (if t \<notin> set (holders h) then None
      else (let (sem', woken) = release (sem h)
            in Some (h\<lparr>sem := sem',
                       holders := remove1 t (holders h) @ (case woken of None \<Rightarrow> [] | Some u \<Rightarrow> [u]),
                       admitted := admitted h @ (case woken of None \<Rightarrow> [] | Some u \<Rightarrow> [u])\<rparr>)))"

fun sem_run :: "sem_event list \<Rightarrow> sem_history \<Rightarrow> sem_history option" where
  "sem_run [] h = Some h"
| "sem_run (e # es) h = (case sem_step e h of None \<Rightarrow> None | Some h' \<Rightarrow> sem_run es h')"

subsection \<open>The collaborators of the analyzer\<close>

text \<open>\<^verbatim>\<open>{ absolute, relative }\<close>, an element of the list \<^verbatim>\<open>discoverFiles\<close> returns.\<close>

record FileRef =
  absolute :: string
  relative :: string

record AnalyzeFileResult =
  analysis :: FileAnalysis
  fromCache :: bool

text \<open>
  What \<^verbatim>\<open>generateText\<close> resolves to, as far as the analyzer reads it: \<^verbatim>\<open>result.text\<close> and
  \<^verbatim>\<open>result.usage?.promptTokens\<close>, \<^verbatim>\<open>result.usage?.completionTokens\<close>.
\<close>

record Usage =
  promptTokens :: "int option"
  completionTokens :: "int option"

record GenerateTextResult =
  result_text :: string
  result_usage :: "Usage option"

text \<open>
  Everything outside the process is a parameter: the file system (\<^verbatim>\<open>readFile\<close>, which may
  throw), the digest \<^verbatim>\<open>createHash("sha256").update(content).digest("hex").slice(0, 16)\<close>, the
  summarization service (\<^verbatim>\<open>generateText\<close>, which may throw; its answer may depend on how
  many calls came before), the clock behind \<^verbatim>\<open>new Date().toISOString()\<close>, and the text of
  the prompt (\<^verbatim>\<open>buildAnalysisPrompt\<close> of prompt.ts, a string template).
\<close>

record world =
  readFile :: "string \<Rightarrow> js_error + string"
  sha256hex16 :: "string \<Rightarrow> string"
  generateText :: "nat \<Rightarrow> string \<Rightarrow> js_error + GenerateTextResult"
  toISOString :: "nat \<Rightarrow> string"
  buildAnalysisPrompt :: "string \<Rightarrow> string \<Rightarrow> FileCategory \<Rightarrow> string"

text \<open>\<^verbatim>\<open>computeFileHash(filePath)\<close> of cache.ts.\<close>

definition computeFileHash :: "world \<Rightarrow> string \<Rightarrow> js_error + string" where
  "computeFileHash w filePath =
     (case readFile w filePath of Inl e \<Rightarrow> Inl e | Inr content \<Rightarrow> Inr (sha256hex16 w content))"

text \<open>
  \<^verbatim>\<open>isMinified(content)\<close>: the average \<^verbatim>\<open>content.length / lines.length\<close> exceeds 500 exactly
  when the length exceeds 500 times the number of lines.
\<close>

definition isMinified :: "string \<Rightarrow> bool" where
  "isMinified content =
     (if lineCount content < 5 then False else length content > 500 * lineCount content)"

text \<open>The category as the template literal prints it.\<close>

fun categoryName :: "FileCategory \<Rightarrow> string" where
  "categoryName schema = ''schema''"
| "categoryName router = ''router''"
| "categoryName component = ''component''"
| "categoryName hook = ''hook''"
| "categoryName util = ''util''"
| "categoryName service = ''service''"
| "categoryName config = ''config''"
| "categoryName type = ''type''"
| "categoryName test = ''test''"
| "categoryName other = ''other''"

definition skippedSummary :: "string \<Rightarrow> FileCategory \<Rightarrow> string" where
  "skippedSummary relPath cat =
     ''## '' @ relPath @ [CHR 0x0A] @
     ''**Purpose:** [Skipped - file too large or minified]'' @ [CHR 0x0A] @
     ''**Category:** '' @ categoryName cat"

subsection \<open>analyzeFile as a task\<close>

text \<open>
  \<^verbatim>\<open>analyzeFile\<close> is an \<^verbatim>\<open>async\<close> function: it runs from one \<^verbatim>\<open>await\<close> to the next without
  interruption, and other tasks run while it waits. A task is at one of these points:
  waiting for \<^verbatim>\<open>computeFileHash\<close>; waiting in the semaphore's queue (with the hash);
  holding a slot and waiting for \<^verbatim>\<open>readFile\<close> (with the hash); holding a slot and waiting
  for \<^verbatim>\<open>generateText\<close> (with the hash, the category, the number of the call and the
  prompt); returned; or thrown.
\<close>

datatype task =
    Hashing
  | Queued string
  | Admitted string
  | Calling string FileCategory nat string
  | Done AnalyzeFileResult
  | Failed js_error

text \<open>
  What the tasks of one \<^verbatim>\<open>analyzeFiles\<close> call share: the cache object, the semaphore, the
  counters of the progress callback; with them the tasks themselves, the prompts sent to the
  service so far, the calls of the outer progress callback, and the clock.
\<close>

record analyzer_state =
  cache :: CacheData
  semaphore :: Semaphore
  tasks :: "task list"
  serviceCalls :: "string list"
  completed :: nat
  cachedCount :: nat
  analyzedCount :: nat
  progressLog :: "(string \<times> bool \<times> nat) list"
  ticks :: nat

text \<open>The callback \<^verbatim>\<open>analyzeFiles\<close> passes to \<^verbatim>\<open>analyzeFile\<close>.\<close>

definition onProgress :: "string \<Rightarrow> bool \<Rightarrow> analyzer_state \<Rightarrow> analyzer_state" where
  "onProgress file cached s =
     s\<lparr>completed := Suc (completed s),
       cachedCount := (if cached then Suc (cachedCount s) else cachedCount s),
       analyzedCount := (if cached then analyzedCount s else Suc (analyzedCount s)),
       progressLog := progressLog s @ [(file, cached, Suc (completed s))]\<rparr>"

definition setTask :: "nat \<Rightarrow> task \<Rightarrow> analyzer_state \<Rightarrow> analyzer_state" where
  "setTask i t s = s\<lparr>tasks := (tasks s)[i := t]\<rparr>"

text \<open>\<^verbatim>\<open>next()\<close> resolves the promise a queued task awaits: the task now holds a slot.\<close>

definition resume :: "nat \<Rightarrow> task list \<Rightarrow> task list" where
  "resume j ts =
     (if j < length ts
      then ts[j := (case ts ! j of Queued h \<Rightarrow> Admitted h | t \<Rightarrow> t)]
      else ts)"

text \<open>\<^verbatim>\<open>finally { semaphore.release(); }\<close>\<close>

definition releaseSlot :: "analyzer_state \<Rightarrow> analyzer_state" where
  "releaseSlot s =
     (let (sem', woken) = release (semaphore s)
      in s\<lparr>semaphore := sem',
           tasks := (case woken of None \<Rightarrow> tasks s | Some j \<Rightarrow> resume j (tasks s))\<rparr>)"

text \<open>The two places where the miss path writes the cache and returns.\<close>

definition finishMiss ::
  "world \<Rightarrow> nat \<Rightarrow> string \<Rightarrow> string \<Rightarrow> string \<Rightarrow> FileCategory \<Rightarrow> string \<Rightarrow> Tokens
     \<Rightarrow> analyzer_state \<Rightarrow> analyzer_state" where
  "finishMiss w i filePath relPath h cat summ toks s =
     (let entry = \<lparr>entry_hash = h, entry_summary = summ, entry_category = cat,
                   analyzedAt = toISOString w (ticks s), entry_tokens = toks\<rparr>;
          s1 = s\<lparr>cache := setCacheEntry (cache s) relPath entry\<rparr>;
          s2 = onProgress relPath False s1;
          s3 = setTask i (Done \<lparr>analysis = \<lparr>path = filePath, relativePath = relPath, category = cat,
                                            summary = summ, hash = h, tokens = toks\<rparr>,
                                fromCache = False\<rparr>) s2
      in releaseSlot s3)"

text \<open>
  One uninterrupted stretch of task \<open>i\<close> of \<^verbatim>\<open>analyzeFile\<close>, entered when the promise it
  awaits settles. A task in the queue does not move by itself, and a task that has returned
  or thrown does not move at all.
\<close>

definition analyzeFile :: "world \<Rightarrow> FileRef list \<Rightarrow> nat \<Rightarrow> analyzer_state \<Rightarrow> analyzer_state" where
  "analyzeFile w files i s =
     (if i \<ge> length files \<or> i \<ge> length (tasks s) then s
      else
       (let filePath = absolute (files ! i);
            relPath = relative (files ! i)
        in case tasks s ! i of
             Hashing \<Rightarrow>
               (case computeFileHash w filePath of
                  Inl e \<Rightarrow> setTask i (Failed e) s
                | Inr h \<Rightarrow>
                    (let cachedEntry = getCacheEntry (cache s) relPath
                     in if isCacheValid cachedEntry h
                        then setTask i
                               (Done \<lparr>analysis =
                                        \<lparr>path = filePath, relativePath = relPath,
                                         category = entry_category (the cachedEntry),
                                         summary = entry_summary (the cachedEntry),
                                         hash = h,
                                         tokens = entry_tokens (the cachedEntry)\<rparr>,
                                      fromCache = True\<rparr>)
                               (onProgress relPath True s)
                        else (let (sem', resolved) = acquire i (semaphore s)
                              in setTask i (if resolved then Admitted h else Queued h)
                                   (s\<lparr>semaphore := sem'\<rparr>))))
           | Queued h \<Rightarrow> s
           | Admitted h \<Rightarrow>
               (case readFile w filePath of
                  Inl e \<Rightarrow> releaseSlot (setTask i (Failed e) s)
                | Inr content \<Rightarrow>
                    (let cat = detectCategory relPath content
                     in if length content > 100000 \<or> isMinified content
                        then finishMiss w i filePath relPath h cat (skippedSummary relPath cat)
                               \<lparr>input_tokens = 0, output_tokens = 0\<rparr> s
                        else (let prompt = buildAnalysisPrompt w relPath content cat
                              in setTask i (Calling h cat (length (serviceCalls s)) prompt)
                                   (s\<lparr>serviceCalls := serviceCalls s @ [prompt]\<rparr>))))
           | Calling h cat n prompt \<Rightarrow>
               (case generateText w n prompt of
                  Inl e \<Rightarrow> releaseSlot (setTask i (Failed e) s)
                | Inr result \<Rightarrow>
                    (let toks = \<lparr>input_tokens =
                                   (case result_usage result of None \<Rightarrow> 0
                                    | Some u \<Rightarrow> (case promptTokens u of None \<Rightarrow> 0 | Some n \<Rightarrow> n)),
                                 output_tokens =
                                   (case result_usage result of None \<Rightarrow> 0
                                    | Some u \<Rightarrow> (case completionTokens u of None \<Rightarrow> 0 | Some n \<Rightarrow> n))\<rparr>
                     in finishMiss w i filePath relPath h cat (result_text result) toks s))
           | Done r \<Rightarrow> s
           | Failed e \<Rightarrow> s))"

subsection \<open>analyzeFiles and the run of the pipeline\<close>

text \<open>
  \<^verbatim>\<open>analyzeFiles\<close> starts one task for each file, all sharing one new semaphore; each runs
  up to its first \<^verbatim>\<open>await\<close>.
\<close>

definition analyzeFiles_init :: "FileRef list \<Rightarrow> CacheData \<Rightarrow> int \<Rightarrow> analyzer_state" where
  "analyzeFiles_init files c concurrency =
     \<lparr>cache = c, semaphore = newSemaphore concurrency, tasks = replicate (length files) Hashing,
      serviceCalls = [], completed = 0, cachedCount = 0, analyzedCount = 0, progressLog = [],
      ticks = 0\<rparr>"

text \<open>
  The order in which the awaited promises settle is not in the hands of the program: a
  schedule lists, in that order, the tasks that run their next stretch.
\<close>

definition analyzeFiles_run :: "world \<Rightarrow> FileRef list \<Rightarrow> nat list \<Rightarrow> analyzer_state \<Rightarrow> analyzer_state" where
  "analyzeFiles_run w files schedule s =
     fold (\<lambda>i s. (analyzeFile w files i s)\<lparr>ticks := Suc (ticks s)\<rparr>) schedule s"

fun isDone :: "task \<Rightarrow> bool" where
  "isDone (Done r) = True"
| "isDone _ = False"

text \<open>
  \<^verbatim>\<open>Promise.all\<close> resolves once every task has returned, with the analyses in the order of
  the input and the two counters.
\<close>

definition analyzeFiles_result :: "analyzer_state \<Rightarrow> (FileAnalysis list \<times> nat \<times> nat) option" where
  "analyzeFiles_result s =
     (if list_all isDone (tasks s)
      then Some (concat (map (\<lambda>t. case t of Done r \<Rightarrow> [analysis r] | _ \<Rightarrow> []) (tasks s)),
                 cachedCount s, analyzedCount s)
      else None)"

text \<open>
  \<^verbatim>\<open>main\<close> of index.ts from the loaded cache to the cache it saves: it prunes the cache
  against the discovered files, analyzes them, and, if \<^verbatim>\<open>analyzeFiles\<close> resolved, hands the
  cache object to \<^verbatim>\<open>saveCache\<close>. \<open>pipeline_run\<close> is the state when the schedule is used up;
  \<open>pipeline_saved\<close> is the store handed to \<^verbatim>\<open>saveCache\<close>, if the run gets there: with no file
  discovered \<^verbatim>\<open>main\<close> exits before it loads the cache, and if a task threw or has not
  returned, \<^verbatim>\<open>analyzeFiles\<close> has not resolved. (The documents that \<^verbatim>\<open>main\<close> writes between
  the analysis and \<^verbatim>\<open>saveCache\<close> are not modelled.) The files do not change during a run.
\<close>

definition pipeline_run ::
  "world \<Rightarrow> FileRef list \<Rightarrow> int \<Rightarrow> nat list \<Rightarrow> CacheData \<Rightarrow> analyzer_state" where
  "pipeline_run w files concurrency schedule loaded =
     analyzeFiles_run w files schedule
       (analyzeFiles_init files (fst (pruneCache loaded (map relative files))) concurrency)"

definition pipeline_saved ::
  "world \<Rightarrow> FileRef list \<Rightarrow> int \<Rightarrow> nat list \<Rightarrow> CacheData \<Rightarrow> CacheData option" where
  "pipeline_saved w files concurrency schedule loaded =
     (if length files = 0 then None
      else (let s = pipeline_run w files concurrency schedule loaded
            in if analyzeFiles_result s \<noteq> None then Some (cache s) else None))"

subsection \<open>Predicates on states\<close>

text \<open>
  What every history of calls on a semaphore of capacity \<open>c\<close> satisfies: the counter
  \<^verbatim>\<open>running\<close> is the number of holders and at most \<open>c\<close>, a task waits only while all slots
  are taken, and the admitted tasks followed by the waiting ones are the requests in order.
\<close>

definition sem_inv :: "int \<Rightarrow> sem_history \<Rightarrow> bool" where
  "sem_inv c h =
     (maxConcurrent (sem h) = c
      \<and> running (sem h) = int (length (holders h))
      \<and> running (sem h) \<le> c
      \<and> (queue (sem h) = [] \<or> running (sem h) = c)
      \<and> admitted h @ queue (sem h) = requested h)"

text \<open>The hash a task carries from the point where \<^verbatim>\<open>computeFileHash\<close> returned.\<close>

fun taskHash :: "task \<Rightarrow> string option" where
  "taskHash Hashing = None"
| "taskHash (Queued h) = Some h"
| "taskHash (Admitted h) = Some h"
| "taskHash (Calling h cat n prompt) = Some h"
| "taskHash (Done r) = Some (hash (analysis r))"
| "taskHash (Failed e) = None"

text \<open>
  During a run of \<^verbatim>\<open>analyzeFiles\<close>: there is one task for each file; the hash a task carries
  is the hash of its file; for a task that has returned, the cache holds an entry under the
  file's relative path that is valid for that hash; and every key of the cache is the
  relative path of one of the files.
\<close>

definition run_inv :: "world \<Rightarrow> FileRef list \<Rightarrow> analyzer_state \<Rightarrow> bool" where
  "run_inv w refs s =
     (length (tasks s) = length refs
      \<and> (\<forall>i < length refs. \<forall>h. taskHash (tasks s ! i) = Some h \<longrightarrow>
            computeFileHash w (absolute (refs ! i)) = Inr h)
      \<and> (\<forall>i < length refs. \<forall>r. tasks s ! i = Done r \<longrightarrow>
            isCacheValid (getCacheEntry (cache s) (relative (refs ! i))) (hash (analysis r)))
      \<and> fst ` set (entries (cache s)) \<subseteq> relative ` set refs)"

text \<open>
  A store is complete for a list of files when its keys are relative paths of the files and
  every file can be read and has a valid entry for its present hash.
\<close>

definition store_complete :: "world \<Rightarrow> FileRef list \<Rightarrow> CacheData \<Rightarrow> bool" where
  "store_complete w refs c =
     (fst ` set (entries c) \<subseteq> relative ` set refs
      \<and> (\<forall>i < length refs. \<exists>h. computeFileHash w (absolute (refs ! i)) = Inr h
            \<and> isCacheValid (getCacheEntry c (relative (refs ! i))) h))"

text \<open>
  During a run that starts from a complete store: the cache is the store still, no prompt
  has been sent, the semaphore is untouched, no file was counted as analyzed, and every task
  either still waits for its hash or has returned from the cache.
\<close>

definition hit_inv :: "FileRef list \<Rightarrow> CacheData \<Rightarrow> int \<Rightarrow> analyzer_state \<Rightarrow> bool" where
  "hit_inv refs c concurrency s =
     (cache s = c \<and> serviceCalls s = [] \<and> semaphore s = newSemaphore concurrency
      \<and> analyzedCount s = 0
      \<and> length (tasks s) = length refs
      \<and> (\<forall>i < length refs. tasks s ! i = Hashing
            \<or> (\<exists>r. tasks s ! i = Done r \<and> fromCache r)))"

section \<open>Discovery (discovery.ts)\<close>

record CliffnotesConfig =
  concurrency :: int
  include_patterns :: "string list"
  exclude_patterns :: "string list"
  outputFile :: string
  cacheFile :: string

text \<open>\<^verbatim>\<open>DEFAULT_CONFIG\<close> of types.ts (the fields \<^verbatim>\<open>include\<close> and \<^verbatim>\<open>exclude\<close>).\<close>

definition DEFAULT_CONFIG :: CliffnotesConfig where
  "DEFAULT_CONFIG =
     \<lparr>concurrency = 5,
      include_patterns = [''**/*.ts'', ''**/*.tsx'', ''**/*.js'', ''**/*.jsx''],
      exclude_patterns =
        [''**/node_modules/**'', ''**/dist/**'', ''**/build/**'', ''**/.next/**'',
         ''**/coverage/**'', ''**/*.test.*'', ''**/*.spec.*'', ''**/*.d.ts'', ''**/generated/**''],
      outputFile = ''CLIFFNOTES.md'',
      cacheFile = ''.cliffnotes-cache.json''\<rparr>"

subsection \<open>discoverFiles\<close>

text \<open>
  The collaborators of \<^verbatim>\<open>discoverFiles\<close> are parameters: \<^verbatim>\<open>existsSync\<close>, \<^verbatim>\<open>readFile\<close> (which
  may throw), \<^verbatim>\<open>glob(pattern, { cwd })\<close> (which may throw), \<^verbatim>\<open>path.resolve\<close>, and the
  ignore engine: \<^verbatim>\<open>ig.ignores(file)\<close> for the rules added so far, in the order they were
  added (which may throw: the engine rejects a path that is not relative to its root).
\<close>

record discovery_env =
  fs_existsSync :: "string \<Rightarrow> bool"
  fs_readFile :: "string \<Rightarrow> js_error + string"
  glob :: "string \<Rightarrow> string \<Rightarrow> js_error + string list"
  path_resolve :: "string \<Rightarrow> string \<Rightarrow> string"
  ignores :: "string list \<Rightarrow> string \<Rightarrow> js_error + bool"

text \<open>The loop over \<^verbatim>\<open>config.include\<close>: the matches of each pattern, appended in turn.\<close>

fun globAll :: "discovery_env \<Rightarrow> string \<Rightarrow> string list \<Rightarrow> js_error + string list" where
  "globAll env rootDir [] = Inr []"
| "globAll env rootDir (pattern # patterns) =
     (case glob env pattern rootDir of
        Inl e \<Rightarrow> Inl e
      | Inr matches \<Rightarrow>
          (case globAll env rootDir patterns of
             Inl e \<Rightarrow> Inl e
           | Inr others \<Rightarrow> Inr (matches @ others)))"

text \<open>\<^verbatim>\<open>[...new Set(allFiles)]\<close>: each value once, at the place of its first occurrence.\<close>

definition uniqueOf :: "'a list \<Rightarrow> 'a list" where
  "uniqueOf xs = fold (\<lambda>x seen. if x \<in> set seen then seen else seen @ [x]) xs []"

text \<open>\<^verbatim>\<open>file.replace(/\\/g, "/")\<close>\<close>

definition normalizeSlashes :: "string \<Rightarrow> string" where
  "normalizeSlashes file = map (\<lambda>c. if c = CHR 0x5C then CHR ''/'' else c) file"

text \<open>
  \<^verbatim>\<open>uniqueFiles.filter((file) => !ig.ignores(file))\<close>: the files are tested in order, and the
  first test that throws ends the filter.
\<close>

fun filterIgnored :: "(string \<Rightarrow> js_error + bool) \<Rightarrow> string list \<Rightarrow> js_error + string list" where
  "filterIgnored ign [] = Inr []"
| "filterIgnored ign (file # rest) =
     (case ign file of
        Inl e \<Rightarrow> Inl e
      | Inr ignored \<Rightarrow>
          (case filterIgnored ign rest of
             Inl e \<Rightarrow> Inl e
           | Inr kept \<Rightarrow> Inr (if ignored then kept else file # kept)))"

definition discoverFiles :: "discovery_env \<Rightarrow> string \<Rightarrow> CliffnotesConfig \<Rightarrow> js_error + FileRef list" where
  "discoverFiles env rootDir cfg =
     (let gitignorePath = path_resolve env rootDir ''.gitignore''
      in case (if fs_existsSync env gitignorePath
               then (case fs_readFile env gitignorePath of
                       Inl e \<Rightarrow> Inl e
                     | Inr gitignoreContent \<Rightarrow> Inr [gitignoreContent])
               else Inr []) of
           Inl e \<Rightarrow> Inl e
         | Inr ig0 \<Rightarrow>
             (let ig = ig0 @ exclude_patterns cfg @ [outputFile cfg, cacheFile cfg, ''**/CLIFFNOTES.md'']
              in case globAll env rootDir (include_patterns cfg) of
                   Inl e \<Rightarrow> Inl e
                 | Inr allFiles \<Rightarrow>
                     (let uniqueFiles = uniqueOf allFiles
                      in case filterIgnored (ignores env ig) uniqueFiles of
                           Inl e \<Rightarrow> Inl e
                         | Inr filtered \<Rightarrow>
                             Inr (map (\<lambda>file. \<lparr>absolute = path_resolve env rootDir file,
                                                   relative = normalizeSlashes file\<rparr>)
                                    (sort filtered)))))"

subsection \<open>buildFolderTree\<close>

record FolderInfo =
  folder_path :: string
  name :: string
  files :: "FileAnalysis list"
  subfolders :: "string list"
  depth :: nat

text \<open>
  \<^verbatim>\<open>Map<string, FolderInfo>\<close> is an association list in insertion order; \<^verbatim>\<open>folders.set\<close> is
  \<open>assign\<close>, \<^verbatim>\<open>folders.has(k)\<close> is \<open>map_of folders k \<noteq> None\<close>, and a change made to the
  object \<^verbatim>\<open>folders.get(k)\<close> returns is \<open>modify\<close>.
\<close>

type_synonym folder_map = "(string \<times> FolderInfo) list"

record FolderTree =
  folders :: folder_map
  root :: string

definition modify :: "'k \<Rightarrow> ('v \<Rightarrow> 'v) \<Rightarrow> ('k \<times> 'v) list \<Rightarrow> ('k \<times> 'v) list" where
  "modify k f kvs = map (\<lambda>kv. if fst kv = k then (fst kv, f (snd kv)) else kv) kvs"

text \<open>The body of the first loop, for one analysis.\<close>

definition addFile :: "FileAnalysis \<Rightarrow> folder_map \<Rightarrow> folder_map" where
  "addFile a fm =
     (let parts = butlast (split_js (relativePath a));
          folderPath = (if length parts > 0 then join_js parts else ''.'');
          fm1 = (if map_of fm folderPath = None
                 then assign folderPath
                        \<lparr>folder_path = folderPath,
                         name = (if length parts > 0 then last parts else ''root''),
                         files = [], subfolders = [], depth = length parts\<rparr> fm
                 else fm)
      in modify folderPath (\<lambda>folder. folder\<lparr>files := files folder @ [a]\<rparr>) fm1)"

text \<open>The body of the inner loop of the second pass, for one index \<open>i\<close>.\<close>

definition linkAncestor :: "string list \<Rightarrow> nat \<Rightarrow> folder_map \<Rightarrow> folder_map" where
  "linkAncestor parts i fm =
     (let ancestorPath = (if i = 0 then ''.'' else join_js (take i parts));
          fm1 = (if map_of fm ancestorPath = None
                 then assign ancestorPath
                        \<lparr>folder_path = ancestorPath,
                         name = (if i = 0 then ''root'' else parts ! (i - 1)),
                         files = [], subfolders = [], depth = i\<rparr> fm
                 else fm);
          childName = parts ! i
      in modify ancestorPath
           (\<lambda>ancestor. if childName \<in> set (subfolders ancestor) then ancestor
                       else ancestor\<lparr>subfolders := subfolders ancestor @ [childName]\<rparr>) fm1)"

text \<open>The body of the outer loop of the second pass, for one path.\<close>

definition linkAncestors :: "string \<Rightarrow> folder_map \<Rightarrow> folder_map" where
  "linkAncestors p fm =
     (if p = ''.'' then fm
      else (let parts = split_js p in fold (linkAncestor parts) [0..<length parts] fm))"

text \<open>
  \<^verbatim>\<open>buildFolderTree(analyses)\<close>: the first pass, the second pass over the keys the first
  pass left, and the sorting of every list of subfolders (\<^verbatim>\<open>sort()\<close> without a comparator
  orders strings by their code units).
\<close>

definition buildFolderTree :: "FileAnalysis list \<Rightarrow> FolderTree" where
  "buildFolderTree analyses =
     (let fm1 = fold addFile analyses [];
          allPaths = map fst fm1;
          fm2 = fold linkAncestors allPaths fm1;
          fm3 = map (\<lambda>kv. (fst kv, (snd kv)\<lparr>subfolders := sort (subfolders (snd kv))\<rparr>)) fm2
      in \<lparr>folders = fm3, root = ''.''\<rparr>)"

subsection \<open>getFoldersWithContent\<close>

text \<open>\<^verbatim>\<open>path === "." ? sub : `${path}/${sub}`\<close>\<close>

definition subPath :: "string \<Rightarrow> string \<Rightarrow> string" where
  "subPath p sub = (if p = ''.'' then sub else p @ ''/'' @ sub)"

text \<open>
  \<^verbatim>\<open>xs.some(f)\<close> and \<^verbatim>\<open>xs.filter(f)\<close> for a callback that may fail to return (\<open>None\<close>):
  \<^verbatim>\<open>some\<close> stops at the first element the callback accepts.
\<close>

fun some_js :: "('a \<Rightarrow> bool option) \<Rightarrow> 'a list \<Rightarrow> bool option" where
  "some_js f [] = Some False"
| "some_js f (x # xs) =
     (case f x of None \<Rightarrow> None | Some b \<Rightarrow> if b then Some True else some_js f xs)"

fun filter_js :: "('a \<Rightarrow> bool option) \<Rightarrow> 'a list \<Rightarrow> 'a list option" where
  "filter_js f [] = Some []"
| "filter_js f (x # xs) =
     (case f x of
        None \<Rightarrow> None
      | Some b \<Rightarrow>
          (case filter_js f xs of
             None \<Rightarrow> None
           | Some ys \<Rightarrow> Some (if b then x # ys else ys)))"

text \<open>
  The local function \<^verbatim>\<open>hasContent\<close> calls itself through the subfolder names, and nothing
  in it bounds the depth. The first argument is the number of nested calls the stack has
  room for; \<open>None\<close> means that the call did not return within it.
\<close>

fun hasContent :: "nat \<Rightarrow> FolderTree \<Rightarrow> string \<Rightarrow> bool option" where
  "hasContent 0 tree p = None"
| "hasContent (Suc n) tree p =
     (case map_of (folders tree) p of
        None \<Rightarrow> Some False
      | Some folder \<Rightarrow>
          if length (files folder) > 0 then Some True
          else some_js (\<lambda>sub. hasContent n tree (subPath p sub)) (subfolders folder))"

text \<open>The loop over the entries of \<^verbatim>\<open>tree.folders\<close> that fills \<^verbatim>\<open>result\<close>.\<close>

fun collectFolders :: "nat \<Rightarrow> FolderTree \<Rightarrow> folder_map \<Rightarrow> FolderInfo list option" where
  "collectFolders n tree [] = Some []"
| "collectFolders n tree (kv # rest) =
     (case hasContent n tree (fst kv) of
        None \<Rightarrow> None
      | Some b \<Rightarrow>
          if b then
            (case filter_js (\<lambda>sub. hasContent n tree (subPath (fst kv) sub)) (subfolders (snd kv)) of
               None \<Rightarrow> None
             | Some subfoldersWithContent \<Rightarrow>
                 (case collectFolders n tree rest of
                    None \<Rightarrow> None
                  | Some result \<Rightarrow> Some ((snd kv)\<lparr>subfolders := subfoldersWithContent\<rparr> # result)))
          else collectFolders n tree rest)"

text \<open>
  \<^verbatim>\<open>result.sort((a, b) => a.path.localeCompare(b.path))\<close>: the collation of the host is the
  parameter \<open>le\<close> (\<open>le a b\<close> when \<^verbatim>\<open>a.localeCompare(b) <= 0\<close>), and the sort is stable.
\<close>

fun insertByPath :: "(string \<Rightarrow> string \<Rightarrow> bool) \<Rightarrow> FolderInfo \<Rightarrow> FolderInfo list \<Rightarrow> FolderInfo list" where
  "insertByPath le x [] = [x]"
| "insertByPath le x (y # ys) =
     (if le (folder_path x) (folder_path y) then x # y # ys else y # insertByPath le x ys)"

definition sortByPath :: "(string \<Rightarrow> string \<Rightarrow> bool) \<Rightarrow> FolderInfo list \<Rightarrow> FolderInfo list" where
  "sortByPath le xs = foldr (insertByPath le) xs []"

definition getFoldersWithContent ::
  "nat \<Rightarrow> (string \<Rightarrow> string \<Rightarrow> bool) \<Rightarrow> FolderTree \<Rightarrow> FolderInfo list option" where
  "getFoldersWithContent n le tree = map_option (sortByPath le) (collectFolders n tree (folders tree))"

subsection \<open>Notions for the folder tree\<close>

text \<open>
  The folder an analysis is filed under, the \<open>i\<close>-th ancestor of a folder whose path has the
  given parts, and the ancestors of a folder path from the root down to its parent: the
  expressions \<^verbatim>\<open>folderPath\<close> and \<^verbatim>\<open>ancestorPath\<close> of \<^verbatim>\<open>buildFolderTree\<close>.
\<close>

definition folderPathOf :: "FileAnalysis \<Rightarrow> string" where
  "folderPathOf a =
     (let parts = butlast (split_js (relativePath a))
      in if length parts > 0 then join_js parts else ''.'')"

definition ancestorPath :: "string list \<Rightarrow> nat \<Rightarrow> string" where
  "ancestorPath parts i = (if i = 0 then ''.'' else join_js (take i parts))"

definition ancestorPaths :: "string \<Rightarrow> string list" where
  "ancestorPaths p = map (ancestorPath (split_js p)) [0..<length (split_js p)]"

text \<open>The keys of a folder map.\<close>

definition folderKeys :: "folder_map \<Rightarrow> string set" where
  "folderKeys fm = fst ` set fm"

text \<open>
  In a folder map the \<open>i\<close>-th ancestor of the path \<open>p\<close> is linked to its child on the way to
  \<open>p\<close> when the ancestor is present and lists the \<open>i\<close>-th part of \<open>p\<close> among its subfolders.
\<close>

definition linked :: "folder_map \<Rightarrow> string \<Rightarrow> nat \<Rightarrow> bool" where
  "linked fm p i =
     (\<exists>folder. map_of fm (ancestorPath (split_js p) i) = Some folder
        \<and> split_js p ! i \<in> set (subfolders folder))"

text \<open>
  What holds of the folder map during the second pass, for the set \<open>K\<close> of keys the first
  pass left: keys are unique; the keys of \<open>K\<close> are present and are the folders with files;
  every other key is an ancestor of a key of \<open>K\<close>; and every subfolder name was put in by a
  link from an ancestor of a key of \<open>K\<close> to its child.
\<close>

definition tree_inv :: "string set \<Rightarrow> folder_map \<Rightarrow> bool" where
  "tree_inv K fm =
     (distinct (map fst fm)
      \<and> K \<subseteq> folderKeys fm
      \<and> (\<forall>q \<in> folderKeys fm. q \<notin> K \<longrightarrow>
            (\<exists>p \<in> K. p \<noteq> ''.'' \<and> (\<exists>i < length (split_js p). q = ancestorPath (split_js p) i)))
      \<and> (\<forall>q folder. map_of fm q = Some folder \<longrightarrow> (q \<in> K \<longleftrightarrow> files folder \<noteq> []))
      \<and> (\<forall>q folder. map_of fm q = Some folder \<longrightarrow>
            (\<forall>sub \<in> set (subfolders folder).
               \<exists>p \<in> K. p \<noteq> ''.'' \<and>
                 (\<exists>i < length (split_js p). q = ancestorPath (split_js p) i \<and> sub = split_js p ! i))))"

text \<open>An analysis of the file at a relative path, for the examples.\<close>

definition analysisAt :: "string \<Rightarrow> FileAnalysis" where
  "analysisAt rel =
     \<lparr>path = ''/r/'' @ rel, relativePath = rel, category = other, summary = ''## '' @ rel,
      hash = ''0123456789abcdef'', tokens = \<lparr>input_tokens = 0, output_tokens = 0\<rparr>\<rparr>"

section \<open>Concrete inputs\<close>

text \<open>The values at which the instances and the counterexamples below are evaluated.\<close>

definition entryOf :: "string \<Rightarrow> string \<Rightarrow> CacheEntry" where
  "entryOf h summ =
     \<lparr>entry_hash = h, entry_summary = summ, entry_category = other,
      analyzedAt = ''2025-01-01T00:00:00.000Z'',
      entry_tokens = \<lparr>input_tokens = 10, output_tokens = 20\<rparr>\<rparr>"

text \<open>A store with an entry for \<open>a.ts\<close> and an entry for a file that is gone.\<close>

definition storeWithStale :: CacheData where
  "storeWithStale =
     \<lparr>version = 1,
      entries = [(''a.ts'', entryOf ''deadbeef0000'' ''A''), (''gone.ts'', entryOf ''0123456789ab'' ''G'')]\<rparr>"

text \<open>
  The scenario of a root with \<open>a.ts\<close>, unchanged and cached under the hash \<open>deadbeef0000\<close>, and
  \<open>b.ts\<close>, new. The service answers every prompt alike; the prompt is a stand-in.
\<close>

definition scenarioFiles :: "FileRef list" where
  "scenarioFiles =
     [\<lparr>absolute = ''/r/a.ts'', relative = ''a.ts''\<rparr>, \<lparr>absolute = ''/r/b.ts'', relative = ''b.ts''\<rparr>]"

definition scenarioWorld :: world where
  "scenarioWorld =
     \<lparr>readFile = (\<lambda>p. if p = ''/r/a.ts'' then Inr ''const a = 1;''
                      else if p = ''/r/b.ts'' then Inr ''const b = 2;''
                      else Inl IOError),
      sha256hex16 = (\<lambda>content. if content = ''const a = 1;'' then ''deadbeef0000'' else ''0123456789abcdef''),
      generateText = (\<lambda>n prompt. Inr \<lparr>result_text = ''## b.ts'',
                        result_usage = Some \<lparr>promptTokens = Some 100, completionTokens = Some 50\<rparr>\<rparr>),
      toISOString = (\<lambda>n. ''2025-06-01T00:00:00.000Z''),
      buildAnalysisPrompt = (\<lambda>rel content cat. rel @ '': '' @ content)\<rparr>"

text \<open>The store the first run of the scenario saves.\<close>

definition scenarioSaved :: CacheData where
  "scenarioSaved =
     \<lparr>version = 1,
      entries =
        [(''a.ts'', entryOf ''deadbeef0000'' ''A''),
         (''b.ts'', \<lparr>entry_hash = ''0123456789abcdef'', entry_summary = ''## b.ts'',
                    entry_category = other, analyzedAt = ''2025-06-01T00:00:00.000Z'',
                    entry_tokens = \<lparr>input_tokens = 100, output_tokens = 50\<rparr>\<rparr>)]\<rparr>"

text \<open>
  A root that holds the file \<open>b.ts\<close> in the directory \<open>a\<close> and, beside the directory, a file
  whose name is \<open>a\<close>, a backslash, \<open>b.ts\<close> (a legal file name where the separator is the
  slash). There is no \<open>.gitignore\<close>, and nothing is ignored.
\<close>

definition backslashName :: string where
  "backslashName = ''a'' @ [CHR 0x5C] @ ''b.ts''"

definition clashEnv :: discovery_env where
  "clashEnv =
     \<lparr>fs_existsSync = (\<lambda>p. False),
      fs_readFile = (\<lambda>p. Inl IOError),
      glob = (\<lambda>pattern cwd. Inr (if pattern = ''**/*.ts'' then [''a/b.ts'', backslashName] else [])),
      path_resolve = (\<lambda>dir file. dir @ ''/'' @ file),
      ignores = (\<lambda>rules file. Inr False)\<rparr>"

definition clashFiles :: "FileRef list" where
  "clashFiles =
     [\<lparr>absolute = ''/r/a/b.ts'', relative = ''a/b.ts''\<rparr>,
      \<lparr>absolute = ''/r/'' @ backslashName, relative = ''a/b.ts''\<rparr>]"

definition clashWorld :: world where
  "clashWorld =
     \<lparr>readFile = (\<lambda>p. if p = ''/r/a/b.ts'' then Inr ''const x = 1;''
                      else if p = ''/r/'' @ backslashName then Inr ''const y = 2;''
                      else Inl IOError),
      sha256hex16 = (\<lambda>content. if content = ''const x = 1;'' then ''1111111111111111'' else ''2222222222222222''),
      generateText = (\<lambda>n prompt. Inr \<lparr>result_text = ''S'', result_usage = None\<rparr>),
      toISOString = (\<lambda>n. ''2025-06-01T00:00:00.000Z''),
      buildAnalysisPrompt = (\<lambda>rel content cat. rel @ '': '' @ content)\<rparr>"

text \<open>The typed form of the fresh store \<^verbatim>\<open>{ version: CACHE_VERSION, entries: {} }\<close>.\<close>

definition emptyStore :: CacheData where
  "emptyStore = \<lparr>version = CACHE_VERSION, entries = []\<rparr>"

text \<open>The store the first run over the two clashing files saves.\<close>

definition clashSaved :: CacheData where
  "clashSaved =
     \<lparr>version = 1,
      entries =
        [(''a/b.ts'', \<lparr>entry_hash = ''2222222222222222'', entry_summary = ''S'',
                      entry_category = other, analyzedAt = ''2025-06-01T00:00:00.000Z'',
                      entry_tokens = \<lparr>input_tokens = 0, output_tokens = 0\<rparr>\<rparr>)]\<rparr>"

text \<open>Five tasks call \<^verbatim>\<open>acquire\<close> on a semaphore of capacity two.\<close>

definition fiveAcquires :: "sem_event list" where
  "fiveAcquires = [Acquire 0, Acquire 1, Acquire 2, Acquire 3, Acquire 4]"

definition afterFiveAcquires :: sem_history where
  "afterFiveAcquires =
     \<lparr>sem = \<lparr>queue = [2, 3, 4], running = 2, maxConcurrent = 2\<rparr>,
      holders = [0, 1], admitted = [0, 1], requested = [0, 1, 2, 3, 4]\<rparr>"

text \<open>The analyses of the three files \<open>a.ts\<close>, \<open>sub/b.ts\<close> and \<open>sub/deep/c.ts\<close>.\<close>

definition threeAnalyses :: "FileAnalysis list" where
  "threeAnalyses = map analysisAt [''a.ts'', ''sub/b.ts'', ''sub/deep/c.ts'']"

text \<open>
  A root directory that does not exist: nothing exists under it, every read fails, and
  \<^verbatim>\<open>glob\<close> finds no match under it.
\<close>

definition missingRootEnv :: discovery_env where
  "missingRootEnv =
     \<lparr>fs_existsSync = (\<lambda>p. False),
      fs_readFile = (\<lambda>p. Inl IOError),
      glob = (\<lambda>pattern cwd. Inr []),
      path_resolve = (\<lambda>dir file. dir @ ''/'' @ file),
      ignores = (\<lambda>rules file. Inr False)\<rparr>"

section \<open>Lemmas on association lists\<close>

lemma map_of_assign: "map_of (assign k v kvs) k' = (if k' = k then Some v else map_of kvs k')"
  by (induction kvs) auto

lemma keys_assign: "fst ` set (assign k v kvs) = insert k (fst ` set kvs)"
proof (induction kvs)
  case Nil
  then show ?case by simp
next
  case (Cons kv kvs)
  obtain k' v' where kv: "kv = (k', v')" by (cases kv)
  show ?case
  proof (cases "k' = k")
    case True
    then show ?thesis by (simp add: kv)
  next
    case False
    then show ?thesis using Cons.IH by (simp add: kv insert_commute)
  qed
qed

lemma isCacheValid_iff: "isCacheValid entry h \<longleftrightarrow> (\<exists>e. entry = Some e \<and> entry_hash e = h)"
  by (cases entry) (auto simp: isCacheValid_def)

section \<open>Properties of the classifier\<close>

text \<open>
  Claim C7. For every content, \<open>detectCategory\<close> of the path \<open>src/schema/foo.ts\<close> is
  \<open>schema\<close>: the path test \<open>/schema/\<close> of the first rule succeeds, and the content is never
  looked at. In particular a content with an exported interface declaration gives \<open>schema\<close>
  and not \<open>type\<close>, although the same content at a path no rule matches gives \<open>type\<close>.
\<close>

theorem detectCategory_schema_path_first:
  "detectCategory ''src/schema/foo.ts'' content = schema
   \<and> detectCategory ''src/schema/foo.ts'' ''export interface Foo { id: string }'' \<noteq> type
   \<and> detectCategory ''src/foo.ts'' ''export interface Foo { id: string }'' = type"
  by (simp add: detectCategory_def Let_def toLowerCase_def toLowerChar_def upperLetters_def
        lowerLetters_def isHookName_def endsWith_def)

lemma startsWith_set: "startsWith s t \<Longrightarrow> set t \<subseteq> set s"
  by (induction s t rule: startsWith.induct) auto

lemma includes_js_set: "includes_js s t \<Longrightarrow> set t \<subseteq> set s"
proof (induction s)
  case Nil
  then show ?case by simp
next
  case (Cons a s)
  from Cons.prems have "startsWith (a # s) t \<or> includes_js s t" by simp
  then show ?case
  proof
    assume "startsWith (a # s) t"
    then show ?thesis by (rule startsWith_set)
  next
    assume "includes_js s t"
    then have "set t \<subseteq> set s" by (rule Cons.IH)
    then show ?thesis by auto
  qed
qed

lemma toLowerChar_not_T: "toLowerChar c \<noteq> CHR ''T''"
  by (simp add: toLowerChar_def upperLetters_def lowerLetters_def)

text \<open>
  The needle \<open>pgTable(\<close> has a capital letter and is searched in the lower-cased content, so
  this test of the first rule never succeeds, whatever the content.
\<close>

lemma pgTable_test_never_succeeds: "\<not> includes_js (toLowerCase content) ''pgTable(''"
proof
  assume "includes_js (toLowerCase content) ''pgTable(''"
  then have "set ''pgTable('' \<subseteq> set (toLowerCase content)"
    by (rule includes_js_set)
  then have "CHR ''T'' \<in> toLowerChar ` set content"
    by (simp add: toLowerCase_def)
  then obtain c where "toLowerChar c = CHR ''T''"
    by auto
  then show False
    using toLowerChar_not_T by blast
qed

text \<open>
  Claim C8 says that a content with the table-creation call \<open>pgTable(\<close> is classified as
  \<open>schema\<close>. The code does not do so: at the path \<open>db.ts\<close> a content that calls \<open>pgTable(\<close>
  falls through every rule and is classified as \<open>other\<close>.
\<close>

theorem detectCategory_pgTable_other:
  "detectCategory ''db.ts'' ''export const users = pgTable(\"users\", {});'' = other"
  by (simp add: detectCategory_def Let_def toLowerCase_def toLowerChar_def upperLetters_def
        lowerLetters_def isHookName_def endsWith_def)

text \<open>The sibling test for \<open>sqliteTable(\<close>, spelled in lower case, does succeed.\<close>

lemma detectCategory_sqliteTable_schema:
  "detectCategory ''db.ts'' ''export const users = sqliteTable(\"users\", {});'' = schema"
  by (simp add: detectCategory_def Let_def toLowerCase_def toLowerChar_def upperLetters_def
        lowerLetters_def isHookName_def endsWith_def)

section \<open>Properties of the cache store\<close>

subsection \<open>pruneCache\<close>

lemma fold_pruneStep:
  "fold (pruneStep cur) ks (es, rm) =
     (filter (\<lambda>kv. fst kv \<in> set cur \<or> fst kv \<notin> set ks) es, rm @ filter (\<lambda>k. k \<notin> set cur) ks)"
proof (induction ks arbitrary: es rm)
  case Nil
  then show ?case by simp
next
  case (Cons k ks)
  have unfold: "fold (pruneStep cur) (k # ks) (es, rm) = fold (pruneStep cur) ks (pruneStep cur k (es, rm))"
    by simp
  show ?case
  proof (cases "k \<in> set cur")
    case True
    have keep: "pruneStep cur k (es, rm) = (es, rm)"
      using True by (simp add: pruneStep_def)
    have "filter (\<lambda>kv. fst kv \<in> set cur \<or> fst kv \<notin> set ks) es
        = filter (\<lambda>kv. fst kv \<in> set cur \<or> fst kv \<notin> set (k # ks)) es"
      using True by (intro filter_cong) auto
    moreover have "filter (\<lambda>k. k \<notin> set cur) (k # ks) = filter (\<lambda>k. k \<notin> set cur) ks"
      using True by simp
    ultimately show ?thesis
      unfolding unfold keep Cons.IH by simp
  next
    case False
    have drop: "pruneStep cur k (es, rm) = (deleteKey k es, rm @ [k])"
      using False by (simp add: pruneStep_def)
    have "filter (\<lambda>kv. fst kv \<in> set cur \<or> fst kv \<notin> set ks) (deleteKey k es)
        = filter (\<lambda>kv. fst kv \<in> set cur \<or> fst kv \<notin> set (k # ks)) es"
      unfolding deleteKey_def filter_filter using False by (intro filter_cong) auto
    moreover have "filter (\<lambda>k. k \<notin> set cur) (k # ks) = k # filter (\<lambda>k. k \<notin> set cur) ks"
      using False by simp
    ultimately show ?thesis
      unfolding unfold drop Cons.IH by simp
  qed
qed

text \<open>The loop of \<open>pruneCache\<close> in closed form: two filters.\<close>

lemma pruneCache_eq:
  "pruneCache c cur =
     (c\<lparr>entries := filter (\<lambda>kv. fst kv \<in> set cur) (entries c)\<rparr>,
      filter (\<lambda>k. k \<notin> set cur) (map fst (entries c)))"
proof -
  have "filter (\<lambda>kv. fst kv \<in> set cur \<or> fst kv \<notin> set (map fst (entries c))) (entries c)
      = filter (\<lambda>kv. fst kv \<in> set cur) (entries c)"
    by (intro filter_cong) auto
  then show ?thesis
    by (simp add: pruneCache_def fold_pruneStep Let_def)
qed

lemma map_of_filter_key:
  "map_of (filter (\<lambda>kv. fst kv \<in> A) es) k = (if k \<in> A then map_of es k else None)"
  by (induction es) auto

text \<open>
  Claim C4. For every cache store and every list of current paths, the list \<open>pruneCache\<close>
  returns holds exactly the keys of the store that are absent from the current paths (each
  once, if the keys are distinct); the keys left in the store are exactly those present in
  the current paths; every entry whose key is a current path is the entry it was, whatever
  its stored hash; the entries left keep their order, and the version is untouched.
\<close>

theorem pruneCache_removes_exactly_absent:
  "set (snd (pruneCache c cur)) = fst ` set (entries c) - set cur
   \<and> (distinct (map fst (entries c)) \<longrightarrow> distinct (snd (pruneCache c cur)))
   \<and> fst ` set (entries (fst (pruneCache c cur))) = fst ` set (entries c) \<inter> set cur
   \<and> (\<forall>k \<in> set cur. getCacheEntry (fst (pruneCache c cur)) k = getCacheEntry c k)
   \<and> entries (fst (pruneCache c cur)) = filter (\<lambda>kv. fst kv \<in> set cur) (entries c)
   \<and> version (fst (pruneCache c cur)) = version c"
  by (auto simp: pruneCache_eq getCacheEntry_def map_of_filter_key)

text \<open>
  An instance: the store has an entry for \<open>a.ts\<close> and an entry for \<open>gone.ts\<close>; the current
  paths are \<open>a.ts\<close> and \<open>b.ts\<close>.
\<close>

theorem pruneCache_removes_exactly_absent_witness:
  "''a.ts'' \<in> set [''a.ts'', ''b.ts'']
   \<and> distinct (map fst (entries storeWithStale))
   \<and> ''gone.ts'' \<notin> set [''a.ts'', ''b.ts'']
   \<and> getCacheEntry (fst (pruneCache storeWithStale [''a.ts'', ''b.ts''])) ''a.ts''
        = Some (entryOf ''deadbeef0000'' ''A'')
   \<and> map fst (entries (fst (pruneCache storeWithStale [''a.ts'', ''b.ts'']))) = [''a.ts'']
   \<and> distinct (snd (pruneCache storeWithStale [''a.ts'', ''b.ts'']))
   \<and> set (snd (pruneCache storeWithStale [''a.ts'', ''b.ts''])) = {''gone.ts''}"
  using pruneCache_removes_exactly_absent [of storeWithStale "[''a.ts'', ''b.ts'']"]
  by (simp add: getCacheEntry_def storeWithStale_def)

subsection \<open>loadCache\<close>

text \<open>
  Claim C3 says that \<open>loadCache\<close> returns a fresh empty store also when the file is
  structurally invalid. It does not when the invalid value carries the current version: a
  file that holds only \<open>{"version":1}\<close> is returned as parsed, without its \<open>entries\<close>.
\<close>

theorem loadCache_version_only_counterexample:
  "loadCache (\<lambda>p. True) (\<lambda>p. Inr ''{\"version\":1}'') (\<lambda>raw. Inr (JObj [(''version'', JNum 1)]))
       ''.cliffnotes-cache.json''
     = Inr (JObj [(''version'', JNum 1)])
   \<and> JObj [(''version'', JNum 1)] \<noteq> emptyCache"
  by (simp add: loadCache_def loadCacheBody_def emptyCache_def CACHE_VERSION_def)

text \<open>
  Claim C3, amended. \<open>loadCache\<close> never throws: it always returns a value. It returns the
  fresh empty store at the current version whenever the file is missing, or reading it
  throws, or parsing it throws, or reading the version of the parsed value throws (the value
  is \<open>null\<close>), or that version is not the number \<open>CACHE_VERSION\<close> (which includes every
  value without a version), regardless of what else the file holds. In the one case left, a
  parsed value whose version is \<open>CACHE_VERSION\<close>, it returns the parsed value.
\<close>

theorem loadCache_never_throws_and_resets:
  "(\<exists>data. loadCache ex rd ps p = Inr data)
   \<and> (\<not> ex p \<longrightarrow> loadCache ex rd ps p = Inr emptyCache)
   \<and> (\<forall>e. rd p = Inl e \<longrightarrow> loadCache ex rd ps p = Inr emptyCache)
   \<and> (\<forall>raw e. rd p = Inr raw \<and> ps raw = Inl e \<longrightarrow> loadCache ex rd ps p = Inr emptyCache)
   \<and> (\<forall>raw data. rd p = Inr raw \<and> ps raw = Inr data
         \<and> versionOf data \<noteq> Inr (Some (JNum CACHE_VERSION))
         \<longrightarrow> loadCache ex rd ps p = Inr emptyCache)
   \<and> (\<forall>raw data. ex p \<and> rd p = Inr raw \<and> ps raw = Inr data
         \<and> versionOf data = Inr (Some (JNum CACHE_VERSION))
         \<longrightarrow> loadCache ex rd ps p = Inr data)"
  by (auto simp: loadCache_def loadCacheBody_def split: sum.splits)

text \<open>
  An instance: a file of an older version with an entry in it is answered by the empty
  store.
\<close>

theorem loadCache_never_throws_and_resets_witness:
  "versionOf (JObj [(''version'', JNum 0), (''entries'', JObj [(''a.ts'', JStr ''x'')])])
     \<noteq> Inr (Some (JNum CACHE_VERSION))
   \<and> loadCache (\<lambda>p. True) (\<lambda>p. Inr ''old'')
        (\<lambda>raw. Inr (JObj [(''version'', JNum 0), (''entries'', JObj [(''a.ts'', JStr ''x'')])]))
        ''.cliffnotes-cache.json'' = Inr emptyCache"
proof -
  have v: "versionOf (JObj [(''version'', JNum 0), (''entries'', JObj [(''a.ts'', JStr ''x'')])])
             \<noteq> Inr (Some (JNum CACHE_VERSION))"
    by (simp add: CACHE_VERSION_def)
  from loadCache_never_throws_and_resets
         [of "\<lambda>p. True" "\<lambda>p. Inr ''old''"
             "\<lambda>raw. Inr (JObj [(''version'', JNum 0), (''entries'', JObj [(''a.ts'', JStr ''x'')])])"
             "''.cliffnotes-cache.json''"]
  have "\<forall>raw data. (\<lambda>p. Inr ''old'') ''.cliffnotes-cache.json'' = (Inr raw :: js_error + string)
          \<and> (\<lambda>raw. Inr (JObj [(''version'', JNum 0), (''entries'', JObj [(''a.ts'', JStr ''x'')])])) raw
              = (Inr data :: js_error + json)
          \<and> versionOf data \<noteq> Inr (Some (JNum CACHE_VERSION))
          \<longrightarrow> loadCache (\<lambda>p. True) (\<lambda>p. Inr ''old'')
                 (\<lambda>raw. Inr (JObj [(''version'', JNum 0), (''entries'', JObj [(''a.ts'', JStr ''x'')])]))
                 ''.cliffnotes-cache.json'' = Inr emptyCache"
    by blast
  with v show ?thesis by simp
qed

section \<open>Properties of the semaphore\<close>

lemma sem_inv_init: "0 \<le> c \<Longrightarrow> sem_inv c (sem_init c)"
  by (simp add: sem_inv_def sem_init_def newSemaphore_def)

lemma sem_inv_acquire:
  assumes "sem_inv c h" and "sem_step (Acquire t) h = Some h'"
  shows "sem_inv c h'"
proof (cases "running (sem h) < maxConcurrent (sem h)")
  case True
  with assms(1) have q: "queue (sem h) = []"
    by (auto simp: sem_inv_def)
  from True assms(2) have h': "h' = h\<lparr>sem := (sem h)\<lparr>running := running (sem h) + 1\<rparr>,
        holders := holders h @ [t], admitted := admitted h @ [t], requested := requested h @ [t]\<rparr>"
    by (simp add: acquire_def)
  show ?thesis
    using assms(1) True q unfolding h' sem_inv_def by simp
next
  case False
  with assms(2) have h': "h' = h\<lparr>sem := (sem h)\<lparr>queue := queue (sem h) @ [t]\<rparr>,
        holders := holders h, admitted := admitted h, requested := requested h @ [t]\<rparr>"
    by (simp add: acquire_def)
  show ?thesis
    using assms(1) False unfolding h' sem_inv_def by auto
qed

lemma length_remove1_mem:
  assumes "t \<in> set xs"
  shows "int (length (remove1 t xs)) = int (length xs) - 1"
proof -
  from assms have "0 < length xs" by (rule length_pos_if_in_set)
  then obtain n where "length xs = Suc n" by (cases "length xs") auto
  with assms show ?thesis by (simp add: length_remove1)
qed

lemma sem_inv_release:
  assumes "sem_inv c h" and "sem_step (Release t) h = Some h'"
  shows "sem_inv c h'"
proof -
  from assms(2) have mem: "t \<in> set (holders h)"
    by (simp split: if_splits)
  show ?thesis
  proof (cases "queue (sem h)")
    case Nil
    with assms(2) mem have h': "h' = h\<lparr>sem := (sem h)\<lparr>running := running (sem h) - 1\<rparr>,
          holders := remove1 t (holders h)\<rparr>"
      by (auto simp: release_def)
    show ?thesis
      using assms(1) Nil mem unfolding h' sem_inv_def by (simp add: length_remove1_mem)
  next
    case (Cons u rest)
    with assms(2) mem have h': "h' = h\<lparr>sem := (sem h)\<lparr>running := running (sem h) - 1,
             queue := rest, running := running (sem h) - 1 + 1\<rparr>,
          holders := remove1 t (holders h) @ [u], admitted := admitted h @ [u]\<rparr>"
      by (simp add: release_def)
    show ?thesis
      using assms(1) Cons mem unfolding h' sem_inv_def by (auto simp: length_remove1_mem)
  qed
qed

lemma sem_inv_step: "sem_inv c h \<Longrightarrow> sem_step e h = Some h' \<Longrightarrow> sem_inv c h'"
  by (cases e) (auto intro: sem_inv_acquire sem_inv_release simp del: sem_step.simps)

lemma sem_inv_run: "sem_inv c h \<Longrightarrow> sem_run es h = Some h' \<Longrightarrow> sem_inv c h'"
proof (induction es arbitrary: h)
  case Nil
  then show ?case by simp
next
  case (Cons e es)
  from Cons.prems(2) obtain h1 where s: "sem_step e h = Some h1" and r: "sem_run es h1 = Some h'"
    by (auto split: option.splits)
  from Cons.prems(1) s have "sem_inv c h1" by (rule sem_inv_step)
  then show ?case using r by (rule Cons.IH)
qed

lemma release_fifo:
  assumes "queue (sem h) = t # rest" and "u \<in> set (holders h)"
  shows "\<exists>h'. sem_step (Release u) h = Some h' \<and> admitted h' = admitted h @ [t]
           \<and> queue (sem h') = rest \<and> t \<in> set (holders h')
           \<and> length (holders h') = length (holders h)"
  using assms length_pos_if_in_set [OF assms(2)] by (simp add: release_def length_remove1)

text \<open>
  Claim C6. Take a semaphore of capacity \<open>c\<close>, at least one, and any sequence of acquire and
  release calls in which a task releases only a slot it holds. In the state reached, the
  tasks that hold a slot are at most \<open>c\<close>, and as many as the counter \<^verbatim>\<open>running\<close> says; the
  tasks admitted so far, followed by the tasks still queued, are the tasks in the order in
  which they called \<^verbatim>\<open>acquire\<close>, so admission follows the order of the requests; and when
  a task is queued, a release by any holder is a step that admits the oldest queued task
  and leaves the rest of the queue in place.
\<close>

theorem semaphore_bounded_fifo:
  assumes "1 \<le> c" and "sem_run es (sem_init c) = Some h"
  shows "int (length (holders h)) \<le> c
         \<and> running (sem h) = int (length (holders h))
         \<and> admitted h @ queue (sem h) = requested h
         \<and> (\<forall>t rest u. queue (sem h) = t # rest \<and> u \<in> set (holders h) \<longrightarrow>
               (\<exists>h'. sem_step (Release u) h = Some h' \<and> admitted h' = admitted h @ [t]
                  \<and> queue (sem h') = rest \<and> t \<in> set (holders h')))"
proof -
  from assms(1) have "sem_inv c (sem_init c)" by (simp add: sem_inv_init)
  then have inv: "sem_inv c h" using assms(2) by (rule sem_inv_run)
  then have "int (length (holders h)) \<le> c" "running (sem h) = int (length (holders h))"
     "admitted h @ queue (sem h) = requested h"
    by (simp_all add: sem_inv_def)
  moreover have "\<forall>t rest u. queue (sem h) = t # rest \<and> u \<in> set (holders h) \<longrightarrow>
               (\<exists>h'. sem_step (Release u) h = Some h' \<and> admitted h' = admitted h @ [t]
                  \<and> queue (sem h') = rest \<and> t \<in> set (holders h'))"
    using release_fifo by blast
  ultimately show ?thesis by blast
qed

text \<open>
  An instance: capacity two and five tasks. After the five calls of \<^verbatim>\<open>acquire\<close> tasks 0
  and 1 hold the slots and tasks 2, 3 and 4 wait; a release by task 1 then admits task 2.
\<close>

theorem semaphore_bounded_fifo_witness:
  "(1::int) \<le> 2
   \<and> sem_run fiveAcquires (sem_init 2) = Some afterFiveAcquires
   \<and> int (length (holders afterFiveAcquires)) \<le> 2
   \<and> admitted afterFiveAcquires @ queue (sem afterFiveAcquires) = requested afterFiveAcquires
   \<and> (\<exists>h'. sem_step (Release 1) afterFiveAcquires = Some h' \<and> admitted h' = [0, 1, 2]
         \<and> queue (sem h') = [3, 4] \<and> 2 \<in> set (holders h'))"
proof -
  have c: "(1::int) \<le> 2" by simp
  have r: "sem_run fiveAcquires (sem_init 2) = Some afterFiveAcquires"
    by (simp add: fiveAcquires_def afterFiveAcquires_def sem_init_def newSemaphore_def acquire_def)
  have q: "queue (sem afterFiveAcquires) = 2 # [3, 4] \<and> 1 \<in> set (holders afterFiveAcquires)"
    by (simp add: afterFiveAcquires_def)
  from semaphore_bounded_fifo [OF c r]
  have b: "int (length (holders afterFiveAcquires)) \<le> 2"
    and f: "admitted afterFiveAcquires @ queue (sem afterFiveAcquires) = requested afterFiveAcquires"
    and n: "\<forall>t rest u. queue (sem afterFiveAcquires) = t # rest \<and> u \<in> set (holders afterFiveAcquires) \<longrightarrow>
               (\<exists>h'. sem_step (Release u) afterFiveAcquires = Some h'
                  \<and> admitted h' = admitted afterFiveAcquires @ [t]
                  \<and> queue (sem h') = rest \<and> t \<in> set (holders h'))"
    by blast+
  from n q have "\<exists>h'. sem_step (Release 1) afterFiveAcquires = Some h'
                  \<and> admitted h' = admitted afterFiveAcquires @ [2]
                  \<and> queue (sem h') = [3, 4] \<and> 2 \<in> set (holders h')"
    by blast
  then have "\<exists>h'. sem_step (Release 1) afterFiveAcquires = Some h' \<and> admitted h' = [0, 1, 2]
         \<and> queue (sem h') = [3, 4] \<and> 2 \<in> set (holders h')"
    by (simp add: afterFiveAcquires_def)
  with c r b f show ?thesis by blast
qed

section \<open>Properties of the analyzer\<close>

subsection \<open>The cache-hit path\<close>

text \<open>
  Claim C1. Take a task of \<^verbatim>\<open>analyzeFile\<close> that waits for the hash of its file, and let the
  hash arrive; let the cache entry under the file's relative path be valid for it
  (\<open>isCacheValid\<close> holds). Then the entry exists and stores that hash, and in this one stretch
  the task returns the entry's category, summary and token counts, with the file's paths and
  the hash, tagged \<open>fromCache = True\<close>; the semaphore is as before, so no slot was acquired;
  the prompts sent to the service are as before, so no call was made; and the cache is as
  before. Moreover \<open>isCacheValid entry h\<close> holds exactly when the entry exists and its stored
  hash is \<open>h\<close>.
\<close>

theorem analyzeFile_cache_hit:
  assumes "i < length refs" and "i < length (tasks s)" and "tasks s ! i = Hashing"
    and "computeFileHash w (absolute (refs ! i)) = Inr h"
    and "isCacheValid (getCacheEntry (cache s) (relative (refs ! i))) h"
  shows "(\<exists>e. getCacheEntry (cache s) (relative (refs ! i)) = Some e \<and> entry_hash e = h
            \<and> tasks (analyzeFile w refs i s) ! i =
                Done \<lparr>analysis = \<lparr>path = absolute (refs ! i), relativePath = relative (refs ! i),
                                  category = entry_category e, summary = entry_summary e,
                                  hash = h, tokens = entry_tokens e\<rparr>,
                      fromCache = True\<rparr>)
         \<and> semaphore (analyzeFile w refs i s) = semaphore s
         \<and> serviceCalls (analyzeFile w refs i s) = serviceCalls s
         \<and> cache (analyzeFile w refs i s) = cache s
         \<and> (\<forall>entry h'. isCacheValid entry h' \<longleftrightarrow> (\<exists>e. entry = Some e \<and> entry_hash e = h'))"
proof -
  from assms(5) obtain e where e: "getCacheEntry (cache s) (relative (refs ! i)) = Some e"
      and eh: "entry_hash e = h"
    by (auto simp: isCacheValid_iff)
  have step: "analyzeFile w refs i s =
      setTask i (Done \<lparr>analysis = \<lparr>path = absolute (refs ! i), relativePath = relative (refs ! i),
                                  category = entry_category e, summary = entry_summary e,
                                  hash = h, tokens = entry_tokens e\<rparr>,
                      fromCache = True\<rparr>) (onProgress (relative (refs ! i)) True s)"
    using assms e by (simp add: analyzeFile_def Let_def)
  show ?thesis
    unfolding step using assms(2) e eh
    by (simp add: setTask_def onProgress_def isCacheValid_iff)
qed

text \<open>
  An instance: the task of \<open>a.ts\<close> in the scenario, started on the store that holds its hash.
\<close>

theorem analyzeFile_cache_hit_witness:
  "(0::nat) < length scenarioFiles
   \<and> tasks (analyzeFiles_init scenarioFiles storeWithStale 1) ! 0 = Hashing
   \<and> computeFileHash scenarioWorld (absolute (scenarioFiles ! 0)) = Inr ''deadbeef0000''
   \<and> isCacheValid (getCacheEntry storeWithStale (relative (scenarioFiles ! 0))) ''deadbeef0000''
   \<and> semaphore (analyzeFile scenarioWorld scenarioFiles 0 (analyzeFiles_init scenarioFiles storeWithStale 1))
        = newSemaphore 1
   \<and> serviceCalls (analyzeFile scenarioWorld scenarioFiles 0 (analyzeFiles_init scenarioFiles storeWithStale 1))
        = []
   \<and> cache (analyzeFile scenarioWorld scenarioFiles 0 (analyzeFiles_init scenarioFiles storeWithStale 1))
        = storeWithStale
   \<and> tasks (analyzeFile scenarioWorld scenarioFiles 0 (analyzeFiles_init scenarioFiles storeWithStale 1)) ! 0
        = Done \<lparr>analysis = \<lparr>path = ''/r/a.ts'', relativePath = ''a.ts'', category = other,
                             summary = ''A'', hash = ''deadbeef0000'',
                             tokens = \<lparr>input_tokens = 10, output_tokens = 20\<rparr>\<rparr>,
                 fromCache = True\<rparr>"
proof -
  let ?s = "analyzeFiles_init scenarioFiles storeWithStale 1"
  have a: "0 < length scenarioFiles" by (simp add: scenarioFiles_def)
  have b: "0 < length (tasks ?s)" by (simp add: analyzeFiles_init_def scenarioFiles_def)
  have c: "tasks ?s ! 0 = Hashing" by (simp add: analyzeFiles_init_def scenarioFiles_def)
  have d: "computeFileHash scenarioWorld (absolute (scenarioFiles ! 0)) = Inr ''deadbeef0000''"
    by (simp add: computeFileHash_def scenarioWorld_def scenarioFiles_def)
  have e: "isCacheValid (getCacheEntry (cache ?s) (relative (scenarioFiles ! 0))) ''deadbeef0000''"
    by (simp add: isCacheValid_def getCacheEntry_def analyzeFiles_init_def scenarioFiles_def
          storeWithStale_def entryOf_def)
  have e': "getCacheEntry (cache ?s) (relative (scenarioFiles ! 0)) = Some (entryOf ''deadbeef0000'' ''A'')"
    by (simp add: getCacheEntry_def analyzeFiles_init_def scenarioFiles_def storeWithStale_def)
  have f: "cache ?s = storeWithStale" "semaphore ?s = newSemaphore 1" "serviceCalls ?s = []"
    by (simp_all add: analyzeFiles_init_def)
  from analyzeFile_cache_hit [OF a b c d e] e'
  have "tasks (analyzeFile scenarioWorld scenarioFiles 0 ?s) ! 0 =
          Done \<lparr>analysis = \<lparr>path = absolute (scenarioFiles ! 0), relativePath = relative (scenarioFiles ! 0),
                             category = entry_category (entryOf ''deadbeef0000'' ''A''),
                             summary = entry_summary (entryOf ''deadbeef0000'' ''A''),
                             hash = ''deadbeef0000'',
                             tokens = entry_tokens (entryOf ''deadbeef0000'' ''A'')\<rparr>,
                 fromCache = True\<rparr>
        \<and> semaphore (analyzeFile scenarioWorld scenarioFiles 0 ?s) = semaphore ?s
        \<and> serviceCalls (analyzeFile scenarioWorld scenarioFiles 0 ?s) = serviceCalls ?s
        \<and> cache (analyzeFile scenarioWorld scenarioFiles 0 ?s) = cache ?s"
    by auto
  with a c d e f show ?thesis
    by (simp add: scenarioFiles_def entryOf_def)
qed

section \<open>Two runs of the pipeline over unchanged files\<close>

lemma getCacheEntry_setCacheEntry:
  "getCacheEntry (setCacheEntry c k e) k' = (if k' = k then Some e else getCacheEntry c k')"
  by (simp add: getCacheEntry_def setCacheEntry_def map_of_assign)

subsection \<open>What one stretch of a task does\<close>

lemma resume_length [simp]: "length (resume j ts) = length ts"
  by (simp add: resume_def)

lemma resume_Done: "k < length ts \<Longrightarrow> resume j ts ! k = Done r \<longleftrightarrow> ts ! k = Done r"
  by (auto simp: resume_def nth_list_update split: task.splits)

lemma resume_taskHash: "k < length ts \<Longrightarrow> taskHash (resume j ts ! k) = taskHash (ts ! k)"
  by (auto simp: resume_def nth_list_update split: task.splits)

lemma releaseSlot_fields [simp]:
  "cache (releaseSlot s) = cache s"
  "serviceCalls (releaseSlot s) = serviceCalls s"
  "length (tasks (releaseSlot s)) = length (tasks s)"
  by (simp_all add: releaseSlot_def split: prod.splits option.splits)

lemma releaseSlot_Done:
  "k < length (tasks s) \<Longrightarrow> tasks (releaseSlot s) ! k = Done r \<longleftrightarrow> tasks s ! k = Done r"
  by (simp add: releaseSlot_def resume_Done split: prod.splits option.splits)

lemma releaseSlot_taskHash:
  "k < length (tasks s) \<Longrightarrow> taskHash (tasks (releaseSlot s) ! k) = taskHash (tasks s ! k)"
  by (simp add: releaseSlot_def resume_taskHash split: prod.splits option.splits)

text \<open>The shapes a stretch can take.\<close>

lemma analyzeFile_cases:
  assumes "i < length refs" and "i < length (tasks s)"
  obtains
    (idle) "analyzeFile w refs i s = s"
  | (hit) h e where "tasks s ! i = Hashing"
      "computeFileHash w (absolute (refs ! i)) = Inr h"
      "getCacheEntry (cache s) (relative (refs ! i)) = Some e" "entry_hash e = h"
      "analyzeFile w refs i s =
         setTask i (Done \<lparr>analysis = \<lparr>path = absolute (refs ! i), relativePath = relative (refs ! i),
                                      category = entry_category e, summary = entry_summary e,
                                      hash = h, tokens = entry_tokens e\<rparr>,
                          fromCache = True\<rparr>) (onProgress (relative (refs ! i)) True s)"
  | (miss) h t where "tasks s ! i = Hashing"
      "computeFileHash w (absolute (refs ! i)) = Inr h"
      "\<not> isCacheValid (getCacheEntry (cache s) (relative (refs ! i))) h"
      "t = Admitted h \<or> t = Queued h"
      "analyzeFile w refs i s = setTask i t (s\<lparr>semaphore := fst (acquire i (semaphore s))\<rparr>)"
  | (failed) e where "analyzeFile w refs i s = setTask i (Failed e) s"
  | (failed_release) e where "analyzeFile w refs i s = releaseSlot (setTask i (Failed e) s)"
  | (call) h cat prompt where "tasks s ! i = Admitted h"
      "analyzeFile w refs i s =
         setTask i (Calling h cat (length (serviceCalls s)) prompt)
           (s\<lparr>serviceCalls := serviceCalls s @ [prompt]\<rparr>)"
  | (finish) h cat summ toks where "taskHash (tasks s ! i) = Some h"
      "analyzeFile w refs i s =
         finishMiss w i (absolute (refs ! i)) (relative (refs ! i)) h cat summ toks s"
proof (cases "tasks s ! i")
  case Hashing
  show ?thesis
  proof (cases "computeFileHash w (absolute (refs ! i))")
    case (Inl e)
    with Hashing assms have "analyzeFile w refs i s = setTask i (Failed e) s"
      by (simp add: analyzeFile_def)
    then show ?thesis by (rule failed)
  next
    case (Inr h)
    show ?thesis
    proof (cases "isCacheValid (getCacheEntry (cache s) (relative (refs ! i))) h")
      case True
      then obtain e where e: "getCacheEntry (cache s) (relative (refs ! i)) = Some e" "entry_hash e = h"
        by (auto simp: isCacheValid_iff)
      with Hashing Inr True assms show ?thesis
        by (intro hit[of h e]) (simp_all add: analyzeFile_def Let_def)
    next
      case False
      with Hashing Inr assms show ?thesis
        by (intro miss[of h "if snd (acquire i (semaphore s)) then Admitted h else Queued h"])
           (simp_all add: analyzeFile_def Let_def split: prod.splits)
    qed
  qed
next
  case (Queued h)
  with assms have "analyzeFile w refs i s = s" by (simp add: analyzeFile_def)
  then show ?thesis by (rule idle)
next
  case (Admitted h)
  show ?thesis
  proof (cases "readFile w (absolute (refs ! i))")
    case (Inl e)
    with Admitted assms have "analyzeFile w refs i s = releaseSlot (setTask i (Failed e) s)"
      by (simp add: analyzeFile_def)
    then show ?thesis by (rule failed_release)
  next
    case (Inr content)
    show ?thesis
    proof (cases "length content > 100000 \<or> isMinified content")
      case True
      with Admitted Inr assms show ?thesis
        by (intro finish[of h]) (simp_all add: analyzeFile_def Let_def)
    next
      case False
      with Admitted Inr assms show ?thesis
        by (intro call[of h]) (simp_all add: analyzeFile_def Let_def)
    qed
  qed
next
  case (Calling h cat n prompt)
  show ?thesis
  proof (cases "generateText w n prompt")
    case (Inl e)
    with Calling assms have "analyzeFile w refs i s = releaseSlot (setTask i (Failed e) s)"
      by (simp add: analyzeFile_def)
    then show ?thesis by (rule failed_release)
  next
    case (Inr result)
    with Calling assms show ?thesis
      by (intro finish[of h]) (simp_all add: analyzeFile_def Let_def)
  qed
next
  case (Done r)
  with assms have "analyzeFile w refs i s = s" by (simp add: analyzeFile_def)
  then show ?thesis by (rule idle)
next
  case (Failed e)
  with assms have "analyzeFile w refs i s = s" by (simp add: analyzeFile_def)
  then show ?thesis by (rule idle)
qed

lemma analyzeFile_out_of_range:
  "\<not> (i < length refs \<and> i < length (tasks s)) \<Longrightarrow> analyzeFile w refs i s = s"
  by (auto simp: analyzeFile_def)


subsection \<open>The invariant of a run\<close>

lemma distinct_relative:
  assumes "distinct (map relative refs)" and "i < length refs" and "k < length refs"
    and "relative (refs ! k) = relative (refs ! i)"
  shows "k = i"
proof -
  from assms(2-4) have "map relative refs ! k = map relative refs ! i" by simp
  moreover have "(map relative refs ! k = map relative refs ! i) = (k = i)"
    using assms(1-3) by (intro nth_eq_iff_index_eq) simp_all
  ultimately show ?thesis by simp
qed

lemma run_inv_ticks [simp]: "run_inv w refs (s\<lparr>ticks := n\<rparr>) = run_inv w refs s"
  by (simp add: run_inv_def)

lemma run_inv_setTask:
  assumes "run_inv w refs s" and "i < length refs"
    and "\<And>h. taskHash t = Some h \<Longrightarrow> computeFileHash w (absolute (refs ! i)) = Inr h"
    and "\<And>r. t = Done r \<Longrightarrow> isCacheValid (getCacheEntry (cache s) (relative (refs ! i))) (hash (analysis r))"
  shows "run_inv w refs (setTask i t s)"
  using assms unfolding run_inv_def setTask_def
  by (auto simp: nth_list_update)

lemma run_inv_releaseSlot:
  assumes "run_inv w refs s"
  shows "run_inv w refs (releaseSlot s)"
  using assms unfolding run_inv_def
  by (simp add: releaseSlot_Done releaseSlot_taskHash)

lemma run_inv_other_fields:
  "run_inv w refs (s\<lparr>semaphore := x\<rparr>) = run_inv w refs s"
  "run_inv w refs (s\<lparr>serviceCalls := y\<rparr>) = run_inv w refs s"
  "run_inv w refs (onProgress f b s) = run_inv w refs s"
  by (simp_all add: run_inv_def onProgress_def)

lemma run_inv_finishMiss:
  assumes d: "distinct (map relative refs)" and inv: "run_inv w refs s" and i: "i < length refs"
    and h: "computeFileHash w (absolute (refs ! i)) = Inr h"
  shows "run_inv w refs (finishMiss w i (absolute (refs ! i)) (relative (refs ! i)) h cat summ toks s)"
proof -
  let ?rel = "relative (refs ! i)"
  let ?entry = "\<lparr>entry_hash = h, entry_summary = summ, entry_category = cat,
                   analyzedAt = toISOString w (ticks s), entry_tokens = toks\<rparr>"
  let ?s1 = "s\<lparr>cache := setCacheEntry (cache s) ?rel ?entry\<rparr>"
  have other: "getCacheEntry (cache ?s1) (relative (refs ! k)) = getCacheEntry (cache s) (relative (refs ! k))"
    if "k < length refs" "k \<noteq> i" for k
    using distinct_relative [OF d i that(1)] that(2)
    by (auto simp: getCacheEntry_setCacheEntry)
  have own: "isCacheValid (getCacheEntry (cache ?s1) ?rel) h"
    by (simp add: getCacheEntry_setCacheEntry isCacheValid_iff)
  have keys: "fst ` set (entries (cache ?s1)) \<subseteq> relative ` set refs"
    using inv i by (auto simp: run_inv_def setCacheEntry_def keys_assign)
  have inv1: "run_inv w refs ?s1"
    unfolding run_inv_def
  proof (intro conjI allI impI)
    show "length (tasks ?s1) = length refs" using inv by (simp add: run_inv_def)
  next
    fix k h' assume "k < length refs" "taskHash (tasks ?s1 ! k) = Some h'"
    then show "computeFileHash w (absolute (refs ! k)) = Inr h'"
      using inv by (simp add: run_inv_def)
  next
    fix k r assume k: "k < length refs" and r: "tasks ?s1 ! k = Done r"
    show "isCacheValid (getCacheEntry (cache ?s1) (relative (refs ! k))) (hash (analysis r))"
    proof (cases "k = i")
      case True
      from inv k r have "computeFileHash w (absolute (refs ! k)) = Inr (hash (analysis r))"
        by (simp add: run_inv_def)
      with True h have "hash (analysis r) = h" by simp
      with own True show ?thesis by simp
    next
      case False
      from inv k r have "isCacheValid (getCacheEntry (cache s) (relative (refs ! k))) (hash (analysis r))"
        by (simp add: run_inv_def)
      with other [OF k False] show ?thesis by simp
    qed
  next
    show "fst ` set (entries (cache ?s1)) \<subseteq> relative ` set refs" by (rule keys)
  qed
  have "run_inv w refs (setTask i (Done \<lparr>analysis = \<lparr>path = absolute (refs ! i), relativePath = ?rel,
            category = cat, summary = summ, hash = h, tokens = toks\<rparr>, fromCache = False\<rparr>)
          (onProgress ?rel False ?s1))"
  proof (rule run_inv_setTask)
    show "run_inv w refs (onProgress ?rel False ?s1)"
      using inv1 by (simp add: run_inv_other_fields)
  next
    show "i < length refs" by (rule i)
  next
    fix h' assume "taskHash (Done \<lparr>analysis = \<lparr>path = absolute (refs ! i), relativePath = ?rel,
            category = cat, summary = summ, hash = h, tokens = toks\<rparr>, fromCache = False\<rparr>) = Some h'"
    then show "computeFileHash w (absolute (refs ! i)) = Inr h'" using h by simp
  next
    fix r assume "Done \<lparr>analysis = \<lparr>path = absolute (refs ! i), relativePath = ?rel,
            category = cat, summary = summ, hash = h, tokens = toks\<rparr>, fromCache = False\<rparr> = Done r"
    then have "hash (analysis r) = h" by auto
    then show "isCacheValid (getCacheEntry (cache (onProgress ?rel False ?s1)) ?rel) (hash (analysis r))"
      using own by (simp add: onProgress_def)
  qed
  then show ?thesis
    unfolding finishMiss_def Let_def by (rule run_inv_releaseSlot)
qed

lemma run_inv_analyzeFile:
  assumes d: "distinct (map relative refs)" and inv: "run_inv w refs s"
  shows "run_inv w refs (analyzeFile w refs i s)"
proof (cases "i < length refs \<and> i < length (tasks s)")
  case False
  then show ?thesis using inv by (simp add: analyzeFile_out_of_range)
next
  case True
  then have i: "i < length refs" and it: "i < length (tasks s)" by simp_all
  from i it show ?thesis
  proof (cases rule: analyzeFile_cases [where w = w])
    case idle
    then show ?thesis using inv by simp
  next
    case (hit h e)
    show ?thesis
      unfolding hit(5)
    proof (rule run_inv_setTask)
      show "run_inv w refs (onProgress (relative (refs ! i)) True s)"
        using inv by (simp add: run_inv_other_fields)
    qed (use i hit in \<open>auto simp: onProgress_def isCacheValid_iff\<close>)
  next
    case (miss h t)
    show ?thesis
      unfolding miss(5)
    proof (rule run_inv_setTask)
      show "run_inv w refs (s\<lparr>semaphore := fst (acquire i (semaphore s))\<rparr>)"
        using inv by (simp add: run_inv_other_fields)
    qed (use i miss in auto)
  next
    case (failed e)
    show ?thesis
      unfolding failed by (rule run_inv_setTask) (use i inv in auto)
  next
    case (failed_release e)
    show ?thesis
      unfolding failed_release
      by (rule run_inv_releaseSlot, rule run_inv_setTask) (use i inv in auto)
  next
    case (call h cat prompt)
    from inv i call(1) have "computeFileHash w (absolute (refs ! i)) = Inr h"
      by (simp add: run_inv_def)
    then show ?thesis
      unfolding call(2)
      by (intro run_inv_setTask) (use i inv in \<open>auto simp: run_inv_other_fields\<close>)
  next
    case (finish h cat summ toks)
    from inv i finish(1) have "computeFileHash w (absolute (refs ! i)) = Inr h"
      by (simp add: run_inv_def)
    then show ?thesis
      unfolding finish(2) using d inv i by (intro run_inv_finishMiss)
  qed
qed

lemma run_inv_run:
  assumes "distinct (map relative refs)" and "run_inv w refs s"
  shows "run_inv w refs (analyzeFiles_run w refs sched s)"
  using assms(2)
proof (induction sched arbitrary: s)
  case Nil
  then show ?case by (simp add: analyzeFiles_run_def)
next
  case (Cons i sched)
  have "run_inv w refs ((analyzeFile w refs i s)\<lparr>ticks := Suc (ticks s)\<rparr>)"
    using run_inv_analyzeFile [OF assms(1) Cons.prems] by simp
  from Cons.IH [OF this] show ?case
    by (simp add: analyzeFiles_run_def)
qed

lemma run_inv_init:
  "run_inv w refs (analyzeFiles_init refs (fst (pruneCache loaded (map relative refs))) c)"
  by (auto simp: run_inv_def analyzeFiles_init_def pruneCache_eq)

lemma saved_store_complete:
  assumes "distinct (map relative refs)"
    and "pipeline_saved w refs c sched loaded = Some saved"
  shows "store_complete w refs saved"
proof -
  let ?s = "pipeline_run w refs c sched loaded"
  from assms(2) have saved: "saved = cache ?s" and fin: "list_all isDone (tasks ?s)"
    by (auto simp: pipeline_saved_def Let_def analyzeFiles_result_def split: if_splits)
  have inv: "run_inv w refs ?s"
    unfolding pipeline_run_def by (rule run_inv_run [OF assms(1) run_inv_init])
  show ?thesis
    unfolding store_complete_def
  proof (intro conjI allI impI)
    show "fst ` set (entries saved) \<subseteq> relative ` set refs"
      using inv saved by (simp add: run_inv_def)
  next
    fix i assume i: "i < length refs"
    with inv have "i < length (tasks ?s)" by (simp add: run_inv_def)
    with fin have "isDone (tasks ?s ! i)" by (simp add: list_all_length)
    then obtain r where r: "tasks ?s ! i = Done r" by (cases "tasks ?s ! i") auto
    with inv i have "computeFileHash w (absolute (refs ! i)) = Inr (hash (analysis r))"
      "isCacheValid (getCacheEntry (cache ?s) (relative (refs ! i))) (hash (analysis r))"
      by (simp_all add: run_inv_def)
    with saved show "\<exists>h. computeFileHash w (absolute (refs ! i)) = Inr h
        \<and> isCacheValid (getCacheEntry saved (relative (refs ! i))) h"
      by blast
  qed
qed


subsection \<open>A run from a complete store\<close>

lemma store_complete_world:
  assumes "store_complete w refs c"
    and "\<forall>f \<in> set refs. computeFileHash w2 (absolute f) = computeFileHash w (absolute f)"
  shows "store_complete w2 refs c"
  using assms unfolding store_complete_def by (metis nth_mem)

lemma pruneCache_complete:
  assumes "store_complete w refs c"
  shows "fst (pruneCache c (map relative refs)) = c"
proof -
  from assms have "\<forall>kv \<in> set (entries c). fst kv \<in> set (map relative refs)"
    by (auto simp: store_complete_def)
  then have "filter (\<lambda>kv. fst kv \<in> set (map relative refs)) (entries c) = entries c"
    by (simp add: filter_id_conv)
  then show ?thesis
    by (simp add: pruneCache_eq)
qed

lemma hit_inv_init: "hit_inv refs c conc (analyzeFiles_init refs c conc)"
  by (simp add: hit_inv_def analyzeFiles_init_def)

lemma hit_inv_ticks [simp]: "hit_inv refs c conc (s\<lparr>ticks := n\<rparr>) = hit_inv refs c conc s"
  by (simp add: hit_inv_def)

lemma hit_inv_analyzeFile:
  assumes sc: "store_complete w refs c" and inv: "hit_inv refs c conc s"
  shows "hit_inv refs c conc (analyzeFile w refs i s)
         \<and> (i < length refs \<longrightarrow> isDone (tasks (analyzeFile w refs i s) ! i))
         \<and> (\<forall>k. isDone (tasks s ! k) \<longrightarrow> isDone (tasks (analyzeFile w refs i s) ! k))"
proof (cases "i < length refs")
  case False
  then show ?thesis using inv by (simp add: analyzeFile_out_of_range)
next
  case True
  with inv have it: "i < length (tasks s)" by (simp add: hit_inv_def)
  from inv True consider "tasks s ! i = Hashing" | r where "tasks s ! i = Done r" "fromCache r"
    by (auto simp: hit_inv_def)
  then show ?thesis
  proof cases
    case 1
    from sc True obtain h e where h: "computeFileHash w (absolute (refs ! i)) = Inr h"
      and e: "getCacheEntry c (relative (refs ! i)) = Some e" "entry_hash e = h"
      by (auto simp: store_complete_def isCacheValid_iff)
    from inv have c: "cache s = c" by (simp add: hit_inv_def)
    have step: "analyzeFile w refs i s =
        setTask i (Done \<lparr>analysis = \<lparr>path = absolute (refs ! i), relativePath = relative (refs ! i),
                                    category = entry_category e, summary = entry_summary e,
                                    hash = h, tokens = entry_tokens e\<rparr>,
                        fromCache = True\<rparr>) (onProgress (relative (refs ! i)) True s)"
      using 1 True it h e c by (simp add: analyzeFile_def Let_def isCacheValid_iff)
    show ?thesis
      unfolding step using inv True it
      by (auto simp: hit_inv_def setTask_def onProgress_def nth_list_update)
  next
    case 2
    with True it have "analyzeFile w refs i s = s" by (simp add: analyzeFile_def)
    with 2 inv show ?thesis by simp
  qed
qed

lemma hit_inv_run:
  assumes "store_complete w refs c" and "hit_inv refs c conc s"
  shows "hit_inv refs c conc (analyzeFiles_run w refs sched s)"
  using assms(2)
proof (induction sched arbitrary: s)
  case Nil
  then show ?case by (simp add: analyzeFiles_run_def)
next
  case (Cons i sched)
  have "hit_inv refs c conc ((analyzeFile w refs i s)\<lparr>ticks := Suc (ticks s)\<rparr>)"
    using hit_inv_analyzeFile [OF assms(1) Cons.prems] by simp
  from Cons.IH [OF this] show ?case
    by (simp add: analyzeFiles_run_def)
qed

lemma hit_run_all_done:
  assumes "store_complete w refs c" and "hit_inv refs c conc s"
    and "\<forall>i < length refs. i \<in> set sched \<or> isDone (tasks s ! i)"
  shows "\<forall>i < length refs. isDone (tasks (analyzeFiles_run w refs sched s) ! i)"
  using assms(2,3)
proof (induction sched arbitrary: s)
  case Nil
  then show ?case by (simp add: analyzeFiles_run_def)
next
  case (Cons j sched)
  let ?s1 = "(analyzeFile w refs j s)\<lparr>ticks := Suc (ticks s)\<rparr>"
  note step = hit_inv_analyzeFile [OF assms(1) Cons.prems(1), of j]
  have inv1: "hit_inv refs c conc ?s1" using step by simp
  have "\<forall>i < length refs. i \<in> set sched \<or> isDone (tasks ?s1 ! i)"
  proof (intro allI impI)
    fix i assume i: "i < length refs"
    with Cons.prems(2) have "i = j \<or> i \<in> set sched \<or> isDone (tasks s ! i)" by auto
    then show "i \<in> set sched \<or> isDone (tasks ?s1 ! i)"
      using step i by auto
  qed
  from Cons.IH [OF inv1 this] show ?case
    by (simp add: analyzeFiles_run_def)
qed

text \<open>
  Claim C2, amended. Let the relative paths of the files be pairwise distinct. Let a first
  run of the pipeline over the files, under any schedule and from any loaded store, come to
  the point where it saves a store. Let a second run load exactly that store, over the same
  files, each with the hash it had (the service, the clock, the capacity and the schedule of
  the second run are arbitrary). Then at every point of the second run the cache is the
  saved store, entry for entry, no prompt has been sent to the service, no slot of the
  semaphore has been taken, and no file has been counted as analyzed; and once every task
  has had a turn, the second run saves that same store, every task having returned from the
  cache.
\<close>

theorem pipeline_second_run_idempotent:
  assumes "distinct (map relative refs)"
    and "pipeline_saved w refs c1 sched1 loaded = Some saved"
    and "\<forall>f \<in> set refs. computeFileHash w2 (absolute f) = computeFileHash w (absolute f)"
  shows "cache (pipeline_run w2 refs c2 sched2 saved) = saved
         \<and> serviceCalls (pipeline_run w2 refs c2 sched2 saved) = []
         \<and> semaphore (pipeline_run w2 refs c2 sched2 saved) = newSemaphore c2
         \<and> analyzedCount (pipeline_run w2 refs c2 sched2 saved) = 0
         \<and> ({..<length refs} \<subseteq> set sched2 \<longrightarrow>
              pipeline_saved w2 refs c2 sched2 saved = Some saved
              \<and> (\<forall>t \<in> set (tasks (pipeline_run w2 refs c2 sched2 saved)). \<exists>r. t = Done r \<and> fromCache r))"
proof -
  let ?s2 = "pipeline_run w2 refs c2 sched2 saved"
  have sc: "store_complete w2 refs saved"
    using saved_store_complete [OF assms(1,2)] assms(3) by (rule store_complete_world)
  have run: "?s2 = analyzeFiles_run w2 refs sched2 (analyzeFiles_init refs saved c2)"
    by (simp add: pipeline_run_def pruneCache_complete [OF sc])
  have inv: "hit_inv refs saved c2 ?s2"
    unfolding run by (rule hit_inv_run [OF sc hit_inv_init])
  have fin: "pipeline_saved w2 refs c2 sched2 saved = Some saved
      \<and> (\<forall>t \<in> set (tasks ?s2). \<exists>r. t = Done r \<and> fromCache r)"
    if all: "{..<length refs} \<subseteq> set sched2"
  proof -
    from all have "\<forall>i < length refs. i \<in> set sched2 \<or> isDone (tasks (analyzeFiles_init refs saved c2) ! i)"
      by auto
    from hit_run_all_done [OF sc hit_inv_init this]
    have d: "\<forall>i < length refs. isDone (tasks ?s2 ! i)" by (simp add: run)
    from inv have len: "length (tasks ?s2) = length refs" by (simp add: hit_inv_def)
    have each: "\<exists>r. t = Done r \<and> fromCache r" if "t \<in> set (tasks ?s2)" for t
    proof -
      from that obtain i where i: "i < length (tasks ?s2)" "t = tasks ?s2 ! i"
        by (auto simp: in_set_conv_nth)
      with len have il: "i < length refs" by simp
      with d have "isDone (tasks ?s2 ! i)" by simp
      moreover from inv il have "tasks ?s2 ! i = Hashing \<or> (\<exists>r. tasks ?s2 ! i = Done r \<and> fromCache r)"
        by (simp add: hit_inv_def)
      ultimately show ?thesis using i(2) by auto
    qed
    then have "list_all isDone (tasks ?s2)"
      unfolding list_all_iff by fastforce
    moreover from assms(2) have "length refs \<noteq> 0"
      by (auto simp: pipeline_saved_def split: if_splits)
    ultimately have "pipeline_saved w2 refs c2 sched2 saved = Some saved"
      using inv by (simp add: pipeline_saved_def Let_def analyzeFiles_result_def hit_inv_def)
    with each show ?thesis by blast
  qed
  from inv fin show ?thesis
    by (simp add: hit_inv_def)
qed

lemmas machine_defs = pipeline_saved_def pipeline_run_def analyzeFiles_run_def analyzeFiles_init_def
  analyzeFiles_result_def analyzeFile_def finishMiss_def releaseSlot_def resume_def setTask_def
  onProgress_def acquire_def release_def newSemaphore_def computeFileHash_def isCacheValid_def
  getCacheEntry_def setCacheEntry_def pruneCache_def pruneStep_def deleteKey_def isMinified_def
  lineCount_def skippedSummary_def Let_def

lemmas classifier_defs = detectCategory_def toLowerCase_def toLowerChar_def upperLetters_def
  lowerLetters_def isHookName_def endsWith_def

text \<open>
  An instance: the scenario. The first run, with one slot, finds \<open>a.ts\<close> in the cache, sends
  \<open>b.ts\<close> to the service and drops the entry of the file that is gone; the second run, in
  the other order, sends nothing and saves the same store.
\<close>

theorem pipeline_second_run_idempotent_witness:
  "distinct (map relative scenarioFiles)
   \<and> pipeline_saved scenarioWorld scenarioFiles 1 [0, 1, 1, 1] storeWithStale = Some scenarioSaved
   \<and> {..<length scenarioFiles} \<subseteq> set [1, 0]
   \<and> cache (pipeline_run scenarioWorld scenarioFiles 1 [1, 0] scenarioSaved) = scenarioSaved
   \<and> serviceCalls (pipeline_run scenarioWorld scenarioFiles 1 [1, 0] scenarioSaved) = []
   \<and> pipeline_saved scenarioWorld scenarioFiles 1 [1, 0] scenarioSaved = Some scenarioSaved"
proof -
  have d: "distinct (map relative scenarioFiles)"
    by (simp add: scenarioFiles_def)
  have r: "pipeline_saved scenarioWorld scenarioFiles 1 [0, 1, 1, 1] storeWithStale = Some scenarioSaved"
    by (simp add: machine_defs classifier_defs scenarioWorld_def scenarioFiles_def
          storeWithStale_def scenarioSaved_def entryOf_def)
  have u: "\<forall>f \<in> set scenarioFiles.
             computeFileHash scenarioWorld (absolute f) = computeFileHash scenarioWorld (absolute f)"
    by simp
  have a: "{..<length scenarioFiles} \<subseteq> set [1, 0]"
    by (auto simp: scenarioFiles_def)
  from pipeline_second_run_idempotent [OF d r u, of 1 "[1, 0]"] a
  have "cache (pipeline_run scenarioWorld scenarioFiles 1 [1, 0] scenarioSaved) = scenarioSaved
      \<and> serviceCalls (pipeline_run scenarioWorld scenarioFiles 1 [1, 0] scenarioSaved) = []
      \<and> pipeline_saved scenarioWorld scenarioFiles 1 [1, 0] scenarioSaved = Some scenarioSaved"
    by blast
  with d r a show ?thesis by blast
qed

text \<open>
  Claim C2 as it stands, without the condition on the relative paths, fails. \<open>discoverFiles\<close>
  removes duplicates before it turns backslashes into slashes, so the directory entry
  \<open>a/b.ts\<close> and the file named \<open>a\<close>, backslash, \<open>b.ts\<close> come out as two files with the one
  relative path \<open>a/b.ts\<close>. The first run analyzes both and saves the entry of the one that
  finished last; the second run, over the same unchanged files, finds the hash of the other
  file different from the stored one and sends its content to the service again.
\<close>

theorem pipeline_relative_clash_counterexample:
  "discoverFiles clashEnv ''/r'' DEFAULT_CONFIG = Inr clashFiles
   \<and> pipeline_saved clashWorld clashFiles 5 [0, 0, 0, 1, 1, 1] emptyStore = Some clashSaved
   \<and> serviceCalls (pipeline_run clashWorld clashFiles 5 [0, 0] clashSaved) = [''a/b.ts: const x = 1;'']"
proof -
  have "discoverFiles clashEnv ''/r'' DEFAULT_CONFIG = Inr clashFiles"
    by (simp add: discoverFiles_def clashEnv_def DEFAULT_CONFIG_def clashFiles_def uniqueOf_def
          normalizeSlashes_def backslashName_def Let_def)
  moreover have "pipeline_saved clashWorld clashFiles 5 [0, 0, 0, 1, 1, 1] emptyStore = Some clashSaved"
    by (simp add: machine_defs classifier_defs clashWorld_def clashFiles_def clashSaved_def
          emptyStore_def CACHE_VERSION_def backslashName_def)
  moreover have "serviceCalls (pipeline_run clashWorld clashFiles 5 [0, 0] clashSaved)
                   = [''a/b.ts: const x = 1;'']"
    by (simp add: machine_defs classifier_defs clashWorld_def clashFiles_def clashSaved_def
          backslashName_def)
  ultimately show ?thesis by blast
qed

section \<open>Properties of the folder tree\<close>

subsection \<open>Splitting and joining\<close>

lemma split_js_nonempty [simp]: "split_js s \<noteq> []"
  by (induction s) (auto split: list.splits)

lemma split_js_no_slash: "x \<in> set (split_js s) \<Longrightarrow> CHR ''/'' \<notin> set x"
proof (induction s arbitrary: x)
  case Nil
  then show ?case by simp
next
  case (Cons c s)
  show ?case
  proof (cases "c = CHR ''/''")
    case True
    with Cons show ?thesis by auto
  next
    case False
    obtain p ps where ps: "split_js s = p # ps"
      by (cases "split_js s") auto
    with False Cons.prems have "x = c # p \<or> x \<in> set ps" by auto
    then show ?thesis
    proof
      assume "x = c # p"
      moreover have "CHR ''/'' \<notin> set p" using Cons.IH [of p] ps by simp
      ultimately show ?thesis using False by auto
    next
      assume "x \<in> set ps"
      then show ?thesis using Cons.IH [of x] ps by simp
    qed
  qed
qed

lemma split_js_append_slash:
  "CHR ''/'' \<notin> set p \<Longrightarrow> split_js (p @ CHR ''/'' # s) = p # split_js s"
  by (induction p) auto

lemma split_js_plain: "CHR ''/'' \<notin> set p \<Longrightarrow> split_js p = [p]"
  by (induction p) auto

lemma split_join:
  "xs \<noteq> [] \<Longrightarrow> \<forall>x \<in> set xs. CHR ''/'' \<notin> set x \<Longrightarrow> split_js (join_js xs) = xs"
proof (induction xs rule: join_js.induct)
  case 1
  then show ?case by simp
next
  case (2 p)
  then show ?case by (simp add: split_js_plain)
next
  case (3 p q ps)
  then show ?case by (simp add: split_js_append_slash)
qed

lemma join_js_dot:
  assumes "join_js xs = ''.''" and "\<forall>x \<in> set xs. CHR ''/'' \<notin> set x"
  shows "xs = [''.'']"
proof (cases xs rule: join_js.cases)
  case 1
  with assms show ?thesis by simp
next
  case (2 p)
  with assms show ?thesis by simp
next
  case (3 p q ps)
  with assms(1) have "CHR ''/'' \<in> set ''.''"
    by (metis in_set_conv_decomp join_js.simps(3))
  then show ?thesis by simp
qed

lemma take_split_parts:
  assumes "0 < i" and "i \<le> length (split_js p)"
  shows "split_js (join_js (take i (split_js p))) = take i (split_js p)"
proof (rule split_join)
  from assms show "take i (split_js p) \<noteq> []" by (cases "split_js p") auto
  show "\<forall>x \<in> set (take i (split_js p)). CHR ''/'' \<notin> set x"
    by (meson in_set_takeD split_js_no_slash)
qed

lemma join_take_all: "join_js (split_js p) = p"
proof (induction p)
  case Nil
  then show ?case by simp
next
  case (Cons c p)
  obtain q qs where q: "split_js p = q # qs" by (cases "split_js p") auto
  show ?case
  proof (cases "c = CHR ''/''")
    case True
    with Cons q show ?thesis by simp
  next
    case False
    with Cons q show ?thesis by (cases qs) auto
  qed
qed


subsection \<open>Folder maps\<close>

lemma map_fst_assign:
  "map fst (assign k v kvs) = (if k \<in> fst ` set kvs then map fst kvs else map fst kvs @ [k])"
  by (induction kvs) (force simp: image_iff)+

lemma map_fst_modify [simp]: "map fst (modify k g kvs) = map fst kvs"
  by (simp add: modify_def comp_def)

lemma map_of_modify:
  "map_of (modify k g kvs) k' = (if k' = k then map_option g (map_of kvs k) else map_of kvs k')"
  by (induction kvs) (auto simp: modify_def)

lemma folderKeys_map_of: "q \<in> folderKeys fm \<longleftrightarrow> map_of fm q \<noteq> None"
  by (simp add: folderKeys_def map_of_eq_None_iff)

lemma folderKeys_map_fst: "folderKeys fm = set (map fst fm)"
  by (simp add: folderKeys_def)

text \<open>The two loop bodies, by what they do to a lookup.\<close>

lemma addFile_eq:
  "addFile a fm =
     modify (folderPathOf a) (\<lambda>folder. folder\<lparr>files := files folder @ [a]\<rparr>)
       (if map_of fm (folderPathOf a) = None
        then assign (folderPathOf a)
               \<lparr>folder_path = folderPathOf a,
                name = (if length (butlast (split_js (relativePath a))) > 0
                        then last (butlast (split_js (relativePath a))) else ''root''),
                files = [], subfolders = [], depth = length (butlast (split_js (relativePath a)))\<rparr> fm
        else fm)"
  by (simp add: addFile_def folderPathOf_def Let_def)

lemma map_fst_addFile:
  "map fst (addFile a fm) =
     (if folderPathOf a \<in> folderKeys fm then map fst fm else map fst fm @ [folderPathOf a])"
  by (simp add: addFile_eq map_fst_assign folderKeys_map_of folderKeys_def [symmetric])

lemma map_of_addFile:
  "map_of (addFile a fm) q =
     (if q = folderPathOf a
      then (case map_of fm q of
              None \<Rightarrow> Some \<lparr>folder_path = q,
                name = (if length (butlast (split_js (relativePath a))) > 0
                        then last (butlast (split_js (relativePath a))) else ''root''),
                files = [a], subfolders = [], depth = length (butlast (split_js (relativePath a)))\<rparr>
            | Some folder \<Rightarrow> Some (folder\<lparr>files := files folder @ [a]\<rparr>))
      else map_of fm q)"
  by (auto simp: addFile_eq map_of_modify map_of_assign split: option.splits)

lemma linkAncestor_eq:
  "linkAncestor parts i fm =
     modify (ancestorPath parts i)
       (\<lambda>ancestor. if parts ! i \<in> set (subfolders ancestor) then ancestor
                   else ancestor\<lparr>subfolders := subfolders ancestor @ [parts ! i]\<rparr>)
       (if map_of fm (ancestorPath parts i) = None
        then assign (ancestorPath parts i)
               \<lparr>folder_path = ancestorPath parts i,
                name = (if i = 0 then ''root'' else parts ! (i - 1)),
                files = [], subfolders = [], depth = i\<rparr> fm
        else fm)"
  by (simp add: linkAncestor_def ancestorPath_def Let_def)

lemma map_fst_linkAncestor:
  "map fst (linkAncestor parts i fm) =
     (if ancestorPath parts i \<in> folderKeys fm then map fst fm
      else map fst fm @ [ancestorPath parts i])"
  by (simp add: linkAncestor_eq map_fst_assign folderKeys_map_of folderKeys_def [symmetric])

lemma map_of_linkAncestor:
  "map_of (linkAncestor parts i fm) q =
     (if q = ancestorPath parts i
      then (case map_of fm q of
              None \<Rightarrow> Some \<lparr>folder_path = q, name = (if i = 0 then ''root'' else parts ! (i - 1)),
                            files = [], subfolders = [parts ! i], depth = i\<rparr>
            | Some folder \<Rightarrow>
                Some (if parts ! i \<in> set (subfolders folder) then folder
                      else folder\<lparr>subfolders := subfolders folder @ [parts ! i]\<rparr>))
      else map_of fm q)"
  by (auto simp: linkAncestor_eq map_of_modify map_of_assign split: option.splits)


subsection \<open>The first pass\<close>

lemma fold_snoc: "fold f (xs @ [x]) s = f x (fold f xs s)"
  by simp

lemma first_pass:
  "distinct (map fst (fold addFile analyses []))
   \<and> folderKeys (fold addFile analyses []) = folderPathOf ` set analyses
   \<and> (\<forall>q folder. map_of (fold addFile analyses []) q = Some folder \<longrightarrow>
         files folder = filter (\<lambda>a. folderPathOf a = q) analyses \<and> subfolders folder = [])"
proof (induction analyses rule: rev_induct)
  case Nil
  then show ?case by (simp add: folderKeys_def)
next
  case (snoc a analyses)
  let ?fm = "fold addFile analyses []"
  from snoc have d: "distinct (map fst ?fm)"
    and k: "folderKeys ?fm = folderPathOf ` set analyses"
    and f: "\<And>q folder. map_of ?fm q = Some folder \<Longrightarrow>
         files folder = filter (\<lambda>a. folderPathOf a = q) analyses \<and> subfolders folder = []"
    by blast+
  have step: "fold addFile (analyses @ [a]) [] = addFile a ?fm" by simp
  have "distinct (map fst (addFile a ?fm))"
    using d by (simp add: map_fst_addFile folderKeys_map_fst)
  moreover have "folderKeys (addFile a ?fm) = folderPathOf ` set (analyses @ [a])"
    using k by (auto simp: folderKeys_map_fst map_fst_addFile)
  moreover have "files folder = filter (\<lambda>a. folderPathOf a = q) (analyses @ [a]) \<and> subfolders folder = []"
    if m: "map_of (addFile a ?fm) q = Some folder" for q folder
  proof (cases "q = folderPathOf a")
    case False
    with m have "map_of ?fm q = Some folder" by (simp add: map_of_addFile)
    from f [OF this] False show ?thesis by auto
  next
    case True
    show ?thesis
    proof (cases "map_of ?fm q")
      case None
      then have "q \<notin> folderKeys ?fm" by (simp add: folderKeys_map_of)
      with k have "q \<notin> folderPathOf ` set analyses" by simp
      then have "filter (\<lambda>a. folderPathOf a = q) analyses = []"
        by (auto simp: filter_empty_conv)
      with m True None show ?thesis by (auto simp: map_of_addFile)
    next
      case (Some old)
      from f [OF Some] m True Some show ?thesis by (auto simp: map_of_addFile)
    qed
  qed
  ultimately show ?case unfolding step by blast
qed

lemma first_pass_tree_inv:
  "tree_inv (folderPathOf ` set analyses) (fold addFile analyses [])"
proof -
  let ?fm = "fold addFile analyses []"
  note fp = first_pass [of analyses]
  have nonempty: "files folder \<noteq> [] \<and> q \<in> folderPathOf ` set analyses \<and> subfolders folder = []"
    if m: "map_of ?fm q = Some folder" for q folder
  proof -
    from m have "q \<in> folderKeys ?fm" by (simp add: folderKeys_map_of)
    with fp have q: "q \<in> folderPathOf ` set analyses" by simp
    then obtain a where "a \<in> set analyses" "folderPathOf a = q" by auto
    then have "filter (\<lambda>a. folderPathOf a = q) analyses \<noteq> []"
      by (auto simp: filter_empty_conv)
    with fp m q show ?thesis by simp
  qed
  show ?thesis
    unfolding tree_inv_def
  proof (intro conjI ballI allI impI)
    show "distinct (map fst ?fm)" using fp by simp
    show "folderPathOf ` set analyses \<subseteq> folderKeys ?fm" using fp by simp
  next
    fix q assume "q \<in> folderKeys ?fm" "q \<notin> folderPathOf ` set analyses"
    with fp show "\<exists>p \<in> folderPathOf ` set analyses. p \<noteq> ''.'' \<and>
        (\<exists>i < length (split_js p). q = ancestorPath (split_js p) i)"
      by simp
  next
    fix q folder assume "map_of ?fm q = Some folder"
    from nonempty [OF this] show "(q \<in> folderPathOf ` set analyses) = (files folder \<noteq> [])" by simp
  next
    fix q folder sub assume "map_of ?fm q = Some folder" "sub \<in> set (subfolders folder)"
    with nonempty [of q folder]
    show "\<exists>p \<in> folderPathOf ` set analyses. p \<noteq> ''.'' \<and>
        (\<exists>i < length (split_js p). q = ancestorPath (split_js p) i \<and> sub = split_js p ! i)"
      by simp
  qed
qed

subsection \<open>The second pass\<close>

lemma tree_inv_linkAncestor:
  assumes inv: "tree_inv K fm" and p: "p \<in> K" "p \<noteq> ''.''" and i: "i < length (split_js p)"
  shows "tree_inv K (linkAncestor (split_js p) i fm)"
proof -
  let ?a = "ancestorPath (split_js p) i"
  let ?fm' = "linkAncestor (split_js p) i fm"
  have keys: "folderKeys ?fm' = insert ?a (folderKeys fm)"
    by (auto simp: folderKeys_map_fst map_fst_linkAncestor)
  have d: "distinct (map fst ?fm')"
    using inv by (simp add: tree_inv_def map_fst_linkAncestor folderKeys_map_fst)
  have sub: "K \<subseteq> folderKeys ?fm'"
    using inv keys by (auto simp: tree_inv_def)
  have anc: "\<exists>p \<in> K. p \<noteq> ''.'' \<and> (\<exists>i < length (split_js p). q = ancestorPath (split_js p) i)"
    if "q \<in> folderKeys ?fm'" "q \<notin> K" for q
  proof (cases "q = ?a")
    case True
    with p i show ?thesis by blast
  next
    case False
    with that keys have "q \<in> folderKeys fm" by simp
    with inv that(2) show ?thesis by (simp add: tree_inv_def)
  qed
  have look: "(q \<in> K \<longleftrightarrow> files folder \<noteq> [])
      \<and> (\<forall>sub \<in> set (subfolders folder).
               \<exists>p \<in> K. p \<noteq> ''.'' \<and>
                 (\<exists>i < length (split_js p). q = ancestorPath (split_js p) i \<and> sub = split_js p ! i))"
    if m: "map_of ?fm' q = Some folder" for q folder
  proof (cases "q = ?a")
    case False
    with m have "map_of fm q = Some folder" by (simp add: map_of_linkAncestor)
    with inv show ?thesis unfolding tree_inv_def by blast
  next
    case True
    have new: "\<exists>p \<in> K. p \<noteq> ''.'' \<and>
                 (\<exists>j < length (split_js p). q = ancestorPath (split_js p) j \<and> split_js p ! i = split_js p ! j)"
      using p i True by blast
    show ?thesis
    proof (cases "map_of fm q")
      case None
      then have "q \<notin> folderKeys fm" by (simp add: folderKeys_map_of)
      with inv have "q \<notin> K" by (auto simp: tree_inv_def)
      moreover from m True None
      have "files folder = []" "subfolders folder = [split_js p ! i]"
        by (auto simp: map_of_linkAncestor)
      ultimately show ?thesis using p i True by auto
    next
      case (Some old)
      with inv have old: "(q \<in> K \<longleftrightarrow> files old \<noteq> [])"
        "\<forall>sub \<in> set (subfolders old).
               \<exists>p \<in> K. p \<noteq> ''.'' \<and>
                 (\<exists>i < length (split_js p). q = ancestorPath (split_js p) i \<and> sub = split_js p ! i)"
        unfolding tree_inv_def by blast+
      from m True Some have "files folder = files old"
        "set (subfolders folder) \<subseteq> insert (split_js p ! i) (set (subfolders old))"
        by (auto simp: map_of_linkAncestor split: if_splits)
      with old p i True show ?thesis by auto
    qed
  qed
  show ?thesis
    unfolding tree_inv_def
  proof (intro conjI ballI allI impI)
    show "distinct (map fst ?fm')" by (rule d)
    show "K \<subseteq> folderKeys ?fm'" by (rule sub)
  next
    fix q assume "q \<in> folderKeys ?fm'" "q \<notin> K"
    then show "\<exists>p \<in> K. p \<noteq> ''.'' \<and> (\<exists>i < length (split_js p). q = ancestorPath (split_js p) i)"
      by (rule anc)
  next
    fix q folder assume "map_of ?fm' q = Some folder"
    from look [OF this] show "(q \<in> K) = (files folder \<noteq> [])" by simp
  next
    fix q folder sub assume "map_of ?fm' q = Some folder" "sub \<in> set (subfolders folder)"
    with look [of q folder]
    show "\<exists>p \<in> K. p \<noteq> ''.'' \<and>
                 (\<exists>i < length (split_js p). q = ancestorPath (split_js p) i \<and> sub = split_js p ! i)"
      by simp
  qed
qed

lemma tree_inv_fold_linkAncestor:
  assumes "p \<in> K" "p \<noteq> ''.''" and "\<forall>i \<in> set js. i < length (split_js p)" and "tree_inv K fm"
  shows "tree_inv K (fold (linkAncestor (split_js p)) js fm)"
  using assms(3,4)
proof (induction js arbitrary: fm)
  case Nil
  then show ?case by simp
next
  case (Cons j js)
  from Cons.prems have "tree_inv K (linkAncestor (split_js p) j fm)"
    by (intro tree_inv_linkAncestor assms(1,2)) auto
  with Cons show ?case by simp
qed

lemma tree_inv_linkAncestors:
  assumes "p \<in> K" and "tree_inv K fm"
  shows "tree_inv K (linkAncestors p fm)"
proof (cases "p = ''.''")
  case True
  with assms show ?thesis by (simp add: linkAncestors_def)
next
  case False
  with assms show ?thesis
    by (simp add: linkAncestors_def Let_def tree_inv_fold_linkAncestor)
qed

lemma tree_inv_second_pass:
  assumes "set ps \<subseteq> K" and "tree_inv K fm"
  shows "tree_inv K (fold linkAncestors ps fm)"
  using assms
proof (induction ps arbitrary: fm)
  case Nil
  then show ?case by simp
next
  case (Cons p ps)
  then show ?case by (simp add: tree_inv_linkAncestors)
qed

lemma tree_invD:
  assumes "tree_inv K fm"
  shows "distinct (map fst fm)"
    and "K \<subseteq> folderKeys fm"
    and "\<And>q. q \<in> folderKeys fm \<Longrightarrow> q \<notin> K \<Longrightarrow>
            \<exists>p \<in> K. p \<noteq> ''.'' \<and> (\<exists>i < length (split_js p). q = ancestorPath (split_js p) i)"
    and "\<And>q folder. map_of fm q = Some folder \<Longrightarrow> (q \<in> K) = (files folder \<noteq> [])"
    and "\<And>q folder sub. map_of fm q = Some folder \<Longrightarrow> sub \<in> set (subfolders folder) \<Longrightarrow>
            \<exists>p \<in> K. p \<noteq> ''.'' \<and>
              (\<exists>i < length (split_js p). q = ancestorPath (split_js p) i \<and> sub = split_js p ! i)"
  using assms unfolding tree_inv_def by simp_all

subsection \<open>Links made by the second pass\<close>

lemma linked_linkAncestor_made: "linked (linkAncestor (split_js p) i fm) p i"
  by (auto simp: linked_def map_of_linkAncestor split: option.splits)

lemma linked_linkAncestor_kept:
  assumes "linked fm p i"
  shows "linked (linkAncestor parts j fm) p i"
proof -
  from assms obtain folder where f: "map_of fm (ancestorPath (split_js p) i) = Some folder"
      "split_js p ! i \<in> set (subfolders folder)"
    by (auto simp: linked_def)
  show ?thesis
  proof (cases "ancestorPath (split_js p) i = ancestorPath parts j")
    case True
    with f show ?thesis
      by (auto simp: linked_def map_of_linkAncestor)
  next
    case False
    with f show ?thesis
      by (auto simp: linked_def map_of_linkAncestor)
  qed
qed

lemma linked_fold_linkAncestor_kept:
  "linked fm p i \<Longrightarrow> linked (fold (linkAncestor parts) js fm) p i"
  by (induction js arbitrary: fm) (simp_all add: linked_linkAncestor_kept)

lemma linked_fold_linkAncestor_made:
  "i \<in> set js \<Longrightarrow> linked (fold (linkAncestor (split_js p)) js fm) p i"
proof (induction js arbitrary: fm)
  case Nil
  then show ?case by simp
next
  case (Cons j js)
  show ?case
  proof (cases "i = j")
    case True
    have "linked (linkAncestor (split_js p) i fm) p i" by (rule linked_linkAncestor_made)
    then have "linked (fold (linkAncestor (split_js p)) js (linkAncestor (split_js p) i fm)) p i"
      by (rule linked_fold_linkAncestor_kept)
    with True show ?thesis by simp
  next
    case False
    with Cons.prems have "i \<in> set js" by simp
    from Cons.IH [OF this] show ?thesis by simp
  qed
qed

lemma linked_linkAncestors_kept: "linked fm p i \<Longrightarrow> linked (linkAncestors q fm) p i"
  by (simp add: linkAncestors_def Let_def linked_fold_linkAncestor_kept)

lemma linked_linkAncestors_made:
  "p \<noteq> ''.'' \<Longrightarrow> i < length (split_js p) \<Longrightarrow> linked (linkAncestors p fm) p i"
  by (simp add: linkAncestors_def Let_def linked_fold_linkAncestor_made)

lemma linked_second_pass_kept: "linked fm p i \<Longrightarrow> linked (fold linkAncestors ps fm) p i"
  by (induction ps arbitrary: fm) (simp_all add: linked_linkAncestors_kept)

lemma linked_second_pass:
  assumes "p \<in> set ps" "p \<noteq> ''.''" "i < length (split_js p)"
  shows "linked (fold linkAncestors ps fm) p i"
  using assms(1)
proof (induction ps arbitrary: fm)
  case Nil
  then show ?case by simp
next
  case (Cons q ps)
  show ?case
  proof (cases "p = q")
    case True
    have "linked (linkAncestors p fm) p i"
      using assms(2,3) by (rule linked_linkAncestors_made)
    then have "linked (fold linkAncestors ps (linkAncestors p fm)) p i"
      by (rule linked_second_pass_kept)
    with True show ?thesis by simp
  next
    case False
    with Cons.prems have "p \<in> set ps" by simp
    from Cons.IH [OF this] show ?thesis by simp
  qed
qed

subsection \<open>The tree that is built\<close>

text \<open>The map after the second pass, before the lists of subfolders are sorted.\<close>

lemma map_of_sorted_subfolders:
  "map_of (map (\<lambda>kv. (fst kv, (snd kv)\<lparr>subfolders := sort (subfolders (snd kv))\<rparr>)) fm) q
     = map_option (\<lambda>folder. folder\<lparr>subfolders := sort (subfolders folder)\<rparr>) (map_of fm q)"
  by (induction fm) auto

lemma folders_buildFolderTree:
  "folders (buildFolderTree analyses) =
     map (\<lambda>kv. (fst kv, (snd kv)\<lparr>subfolders := sort (subfolders (snd kv))\<rparr>))
       (fold linkAncestors (map fst (fold addFile analyses [])) (fold addFile analyses []))"
  by (simp add: buildFolderTree_def Let_def)

lemma second_pass_tree_inv:
  "tree_inv (folderPathOf ` set analyses)
     (fold linkAncestors (map fst (fold addFile analyses [])) (fold addFile analyses []))"
proof (rule tree_inv_second_pass)
  show "set (map fst (fold addFile analyses [])) \<subseteq> folderPathOf ` set analyses"
    using first_pass [of analyses] by (simp add: folderKeys_map_fst)
  show "tree_inv (folderPathOf ` set analyses) (fold addFile analyses [])"
    by (rule first_pass_tree_inv)
qed

lemma second_pass_linked:
  assumes "p \<in> folderPathOf ` set analyses" "p \<noteq> ''.''" "i < length (split_js p)"
  shows "linked (fold linkAncestors (map fst (fold addFile analyses [])) (fold addFile analyses [])) p i"
proof (rule linked_second_pass)
  show "p \<in> set (map fst (fold addFile analyses []))"
    using first_pass [of analyses] assms(1) by (simp add: folderKeys_map_fst)
qed (use assms in auto)

text \<open>The built tree satisfies the invariant, with its links, also after the sorting.\<close>

lemma tree_inv_sorted:
  assumes "tree_inv K fm"
  shows "tree_inv K (map (\<lambda>kv. (fst kv, (snd kv)\<lparr>subfolders := sort (subfolders (snd kv))\<rparr>)) fm)"
proof -
  let ?fm' = "map (\<lambda>kv. (fst kv, (snd kv)\<lparr>subfolders := sort (subfolders (snd kv))\<rparr>)) fm"
  have keys: "map fst ?fm' = map fst fm" by (simp add: comp_def)
  have fk: "folderKeys ?fm' = folderKeys fm"
    unfolding folderKeys_map_fst keys ..
  have look: "\<exists>old. map_of fm q = Some old \<and> files folder = files old
      \<and> set (subfolders folder) = set (subfolders old)"
    if m: "map_of ?fm' q = Some folder" for q folder
  proof (cases "map_of fm q")
    case None
    with m show ?thesis by (simp add: map_of_sorted_subfolders)
  next
    case (Some old)
    with m have "folder = old\<lparr>subfolders := sort (subfolders old)\<rparr>"
      by (simp add: map_of_sorted_subfolders)
    with Some show ?thesis by simp
  qed
  show ?thesis
    unfolding tree_inv_def
  proof (intro conjI ballI allI impI)
    show "distinct (map fst ?fm')" unfolding keys by (rule tree_invD(1) [OF assms])
    show "K \<subseteq> folderKeys ?fm'" unfolding fk by (rule tree_invD(2) [OF assms])
  next
    fix q assume "q \<in> folderKeys ?fm'" "q \<notin> K"
    then show "\<exists>p \<in> K. p \<noteq> ''.'' \<and> (\<exists>i < length (split_js p). q = ancestorPath (split_js p) i)"
      unfolding fk by (rule tree_invD(3) [OF assms])
  next
    fix q folder assume "map_of ?fm' q = Some folder"
    from look [OF this] obtain old where "map_of fm q = Some old" "files folder = files old"
      by blast
    with tree_invD(4) [OF assms, of q old] show "(q \<in> K) = (files folder \<noteq> [])"
      by simp
  next
    fix q folder sub assume m: "map_of ?fm' q = Some folder" and s: "sub \<in> set (subfolders folder)"
    from look [OF m] obtain old where o: "map_of fm q = Some old"
        "set (subfolders folder) = set (subfolders old)"
      by blast
    with s have "sub \<in> set (subfolders old)" by simp
    with o(1)
    show "\<exists>p \<in> K. p \<noteq> ''.'' \<and>
                 (\<exists>i < length (split_js p). q = ancestorPath (split_js p) i \<and> sub = split_js p ! i)"
      by (rule tree_invD(5) [OF assms])
  qed
qed

lemma linked_sorted:
  assumes "linked fm p i"
  shows "linked (map (\<lambda>kv. (fst kv, (snd kv)\<lparr>subfolders := sort (subfolders (snd kv))\<rparr>)) fm) p i"
  using assms by (auto simp: linked_def map_of_sorted_subfolders)

lemma buildFolderTree_inv:
  "tree_inv (folderPathOf ` set analyses) (folders (buildFolderTree analyses))"
  unfolding folders_buildFolderTree by (rule tree_inv_sorted) (rule second_pass_tree_inv)

lemma buildFolderTree_linked:
  assumes "p \<in> folderPathOf ` set analyses" "p \<noteq> ''.''" "i < length (split_js p)"
  shows "linked (folders (buildFolderTree analyses)) p i"
  unfolding folders_buildFolderTree by (rule linked_sorted) (rule second_pass_linked [OF assms])

lemma linked_key: "linked fm p i \<Longrightarrow> ancestorPath (split_js p) i \<in> folderKeys fm"
  by (auto simp: linked_def folderKeys_map_of)

text \<open>An ancestor of an ancestor of \<open>p\<close> is an ancestor of \<open>p\<close>.\<close>

lemma split_ancestorPath:
  assumes "0 < j" "j < length (split_js p)"
  shows "split_js (ancestorPath (split_js p) j) = take j (split_js p)"
  using assms by (simp add: ancestorPath_def take_split_parts)

lemma ancestorPath_of_ancestor:
  assumes "0 < j" "j < length (split_js p)" "i < j"
  shows "ancestorPath (split_js (ancestorPath (split_js p) j)) i = ancestorPath (split_js p) i"
  unfolding split_ancestorPath [OF assms(1,2)] using assms(3)
  by (simp add: ancestorPath_def min_def)

lemma buildFolderTree_ancestor_keys:
  assumes q: "q \<in> folderKeys (folders (buildFolderTree analyses))" "q \<noteq> ''.''"
    and i: "i < length (split_js q)"
  shows "ancestorPath (split_js q) i \<in> folderKeys (folders (buildFolderTree analyses))"
proof (cases "q \<in> folderPathOf ` set analyses")
  case True
  from buildFolderTree_linked [OF True q(2) i] show ?thesis by (rule linked_key)
next
  case False
  from tree_invD(3) [OF buildFolderTree_inv q(1) False]
  obtain p j where p: "p \<in> folderPathOf ` set analyses" "p \<noteq> ''.''"
      and j: "j < length (split_js p)" "q = ancestorPath (split_js p) j"
    by blast
  have j0: "0 < j"
  proof (rule ccontr)
    assume "\<not> 0 < j"
    with j(2) have "q = ''.''" by (simp add: ancestorPath_def)
    with q(2) show False by simp
  qed
  from split_ancestorPath [OF j0 j(1)] j i have ij: "i < j" by simp
  from ancestorPath_of_ancestor [OF j0 j(1) ij] j(2)
  have "ancestorPath (split_js q) i = ancestorPath (split_js p) i" by simp
  moreover from ij j(1) have "i < length (split_js p)" by simp
  from buildFolderTree_linked [OF p this]
  have "ancestorPath (split_js p) i \<in> folderKeys (folders (buildFolderTree analyses))"
    by (rule linked_key)
  ultimately show ?thesis by simp
qed

text \<open>
  Claim C5. For every list of analyses, every folder path in the map of the tree that
  \<open>buildFolderTree\<close> returns, other than the root \<open>.\<close>, has all its ancestor paths in the map,
  the root among them; a folder of the map that no analysis is filed under has no files;
  and the root marker is \<open>.\<close>. For the files \<open>a.ts\<close>, \<open>sub/b.ts\<close> and \<open>sub/deep/c.ts\<close> the
  folders are \<open>.\<close>, \<open>sub\<close> and \<open>sub/deep\<close>, of depths 0, 1 and 2, the subfolders of \<open>.\<close> are
  \<open>sub\<close> alone and the subfolders of \<open>sub\<close> are \<open>deep\<close> alone.
\<close>

theorem buildFolderTree_ancestors_present:
  "(\<forall>q \<in> folderKeys (folders (buildFolderTree analyses)). q \<noteq> ''.'' \<longrightarrow>
       set (ancestorPaths q) \<subseteq> folderKeys (folders (buildFolderTree analyses))
       \<and> ''.'' \<in> set (ancestorPaths q))
   \<and> (\<forall>q folder. map_of (folders (buildFolderTree analyses)) q = Some folder
         \<and> q \<notin> folderPathOf ` set analyses \<longrightarrow> files folder = [])
   \<and> root (buildFolderTree analyses) = ''.''
   \<and> map (\<lambda>kv. (fst kv, depth (snd kv), subfolders (snd kv)))
        (folders (buildFolderTree (map analysisAt [''a.ts'', ''sub/b.ts'', ''sub/deep/c.ts''])))
      = [(''.'', 0, [''sub'']), (''sub'', 1, [''deep'']), (''sub/deep'', 2, [])]"
proof (intro conjI ballI allI impI)
  fix q assume q: "q \<in> folderKeys (folders (buildFolderTree analyses))" "q \<noteq> ''.''"
  then show "set (ancestorPaths q) \<subseteq> folderKeys (folders (buildFolderTree analyses))"
    by (auto simp: ancestorPaths_def buildFolderTree_ancestor_keys)
  have "0 < length (split_js q)" by simp
  then have "ancestorPath (split_js q) 0 \<in> set (ancestorPaths q)"
    unfolding ancestorPaths_def by (intro imageI [of 0 "set [0..<length (split_js q)]", folded set_map]) simp
  then show "''.'' \<in> set (ancestorPaths q)" by (simp add: ancestorPath_def)
next
  fix q folder
  assume "map_of (folders (buildFolderTree analyses)) q = Some folder \<and> q \<notin> folderPathOf ` set analyses"
  with tree_invD(4) [OF buildFolderTree_inv, of analyses q folder] show "files folder = []"
    by simp
next
  show "root (buildFolderTree analyses) = ''.''" by (simp add: buildFolderTree_def Let_def)
next
  show "map (\<lambda>kv. (fst kv, depth (snd kv), subfolders (snd kv)))
        (folders (buildFolderTree (map analysisAt [''a.ts'', ''sub/b.ts'', ''sub/deep/c.ts''])))
      = [(''.'', 0, [''sub'']), (''sub'', 1, [''deep'']), (''sub/deep'', 2, [])]"
    by (simp add: buildFolderTree_def addFile_def linkAncestors_def linkAncestor_def analysisAt_def
          modify_def Let_def upt_conv_Cons)
qed

text \<open>An instance: the folder \<open>sub/deep\<close> of the three files, with its ancestors \<open>.\<close> and \<open>sub\<close>.\<close>

theorem buildFolderTree_ancestors_present_witness:
  "''sub/deep'' \<in> folderKeys (folders (buildFolderTree threeAnalyses))
   \<and> ''sub/deep'' \<noteq> ''.''
   \<and> ancestorPaths ''sub/deep'' = [''.'', ''sub'']
   \<and> set [''.'', ''sub''] \<subseteq> folderKeys (folders (buildFolderTree threeAnalyses))"
proof -
  have k: "map fst (folders (buildFolderTree threeAnalyses)) = [''.'', ''sub'', ''sub/deep'']"
    by (simp add: threeAnalyses_def buildFolderTree_def addFile_def linkAncestors_def
          linkAncestor_def analysisAt_def modify_def Let_def upt_conv_Cons comp_def)
  have m: "''sub/deep'' \<in> folderKeys (folders (buildFolderTree threeAnalyses))"
    unfolding folderKeys_map_fst k by simp
  have n: "''sub/deep'' \<noteq> ''.''" by simp
  have a: "ancestorPaths ''sub/deep'' = [''.'', ''sub'']"
    by (simp add: ancestorPaths_def ancestorPath_def upt_conv_Cons)
  from buildFolderTree_ancestors_present [of threeAnalyses] m n
  have "set (ancestorPaths ''sub/deep'') \<subseteq> folderKeys (folders (buildFolderTree threeAnalyses))"
    by blast
  with m n a show ?thesis by simp
qed

section \<open>Folders with content\<close>

subsection \<open>Paths of children\<close>

lemma join_js_snoc: "xs \<noteq> [] \<Longrightarrow> join_js (xs @ [x]) = join_js xs @ ''/'' @ x"
  by (induction xs rule: join_js.induct) auto

lemma join_take_Suc:
  assumes "0 < i" "i < length parts"
  shows "join_js (take (Suc i) parts) = join_js (take i parts) @ ''/'' @ parts ! i"
proof -
  from assms have "take i parts \<noteq> []" by (cases parts) auto
  then show ?thesis
    using assms(2) by (simp add: take_Suc_conv_app_nth join_js_snoc)
qed

lemma hd_first_pass_key:
  assumes h: "\<forall>a \<in> set analyses.
                hd (split_js (relativePath a)) = ''.'' \<longrightarrow> length (split_js (relativePath a)) \<le> 2"
    and p: "p \<in> folderPathOf ` set analyses" "p \<noteq> ''.''"
  shows "hd (split_js p) \<noteq> ''.''"
proof
  assume dot: "hd (split_js p) = ''.''"
  from p(1) obtain a where a: "a \<in> set analyses" "p = folderPathOf a" by auto
  let ?parts = "butlast (split_js (relativePath a))"
  from a(2) p(2) have ne: "?parts \<noteq> []" and pj: "p = join_js ?parts"
    by (auto simp: folderPathOf_def Let_def split: if_splits)
  have "\<forall>x \<in> set ?parts. CHR ''/'' \<notin> set x"
    by (meson in_set_butlastD split_js_no_slash)
  with ne have sp: "split_js p = ?parts" unfolding pj by (rule split_join)
  from ne have "hd ?parts = hd (split_js (relativePath a))"
    by (cases "split_js (relativePath a)") (auto split: if_splits)
  with dot sp have "hd (split_js (relativePath a)) = ''.''" by simp
  with h a(1) have "length (split_js (relativePath a)) \<le> 2" by blast
  then have "length ?parts \<le> 1" by simp
  with ne obtain x where x: "?parts = [x]"
    by (cases ?parts) auto
  with dot sp have "x = ''.''" by simp
  with x pj have "p = ''.''" by simp
  with p(2) show False by simp
qed

lemma ancestorPath_not_dot:
  assumes "hd (split_js p) \<noteq> ''.''" "0 < i" "i \<le> length (split_js p)"
  shows "join_js (take i (split_js p)) \<noteq> ''.''"
proof
  assume "join_js (take i (split_js p)) = ''.''"
  moreover have "\<forall>x \<in> set (take i (split_js p)). CHR ''/'' \<notin> set x"
    by (meson in_set_takeD split_js_no_slash)
  ultimately have "take i (split_js p) = [''.'']" by (rule join_js_dot)
  then have "hd (take i (split_js p)) = ''.''" by simp
  with assms(2) have "hd (split_js p) = ''.''" by (cases "split_js p") (auto simp: take_Suc_Cons gr0_conv_Suc)
  with assms(1) show False by simp
qed

text \<open>
  From the \<open>i\<close>-th ancestor of \<open>p\<close>, the child named by the \<open>i\<close>-th part of \<open>p\<close> is the next
  ancestor of \<open>p\<close>, or \<open>p\<close> itself.
\<close>

lemma subPath_ancestor:
  assumes hd: "hd (split_js p) \<noteq> ''.''" and i: "i < length (split_js p)"
  shows "subPath (ancestorPath (split_js p) i) (split_js p ! i) =
           (if Suc i < length (split_js p) then ancestorPath (split_js p) (Suc i) else p)"
proof -
  let ?parts = "split_js p"
  have next_is: "(if Suc i < length ?parts then ancestorPath ?parts (Suc i) else p)
                   = join_js (take (Suc i) ?parts)"
    using i by (auto simp: ancestorPath_def join_take_all)
  show ?thesis
  proof (cases "i = 0")
    case True
    from i have "take (Suc 0) ?parts = [?parts ! 0]"
      by (cases ?parts) auto
    with True show ?thesis
      unfolding next_is by (simp add: subPath_def ancestorPath_def)
  next
    case False
    then have i0: "0 < i" by simp
    from ancestorPath_not_dot [OF hd i0] i have "join_js (take i ?parts) \<noteq> ''.''" by simp
    with i0 show ?thesis
      unfolding next_is using join_take_Suc [OF i0 i]
      by (simp add: subPath_def ancestorPath_def)
  qed
qed

subsection \<open>Running hasContent\<close>

lemma some_js_returns: "\<forall>x \<in> set xs. f x \<noteq> None \<Longrightarrow> some_js f xs \<noteq> None"
  by (induction xs) (auto split: option.splits)

lemma some_js_True:
  "\<forall>x \<in> set xs. f x \<noteq> None \<Longrightarrow> \<exists>x \<in> set xs. f x = Some True \<Longrightarrow> some_js f xs = Some True"
  by (induction xs) (auto split: option.splits)

lemma filter_js_all: "\<forall>x \<in> set xs. f x = Some True \<Longrightarrow> filter_js f xs = Some xs"
  by (induction xs) auto


lemma subPath_not_dot: "q \<noteq> ''.'' \<Longrightarrow> subPath q sub \<noteq> ''.''"
  by (cases q) (auto simp: subPath_def)

lemma subPath_length: "q \<noteq> ''.'' \<Longrightarrow> length (subPath q sub) = Suc (length q + length sub)"
  by (simp add: subPath_def)

text \<open>
  With enough room on the stack \<open>hasContent\<close> returns, on a tree whose keys are no longer
  than \<open>M\<close> and whose root does not list itself as a subfolder.
\<close>

lemma hasContent_returns:
  assumes bound: "\<forall>q \<in> folderKeys (folders T). length q \<le> M"
    and rootsubs: "\<forall>folder. map_of (folders T) ''.'' = Some folder \<longrightarrow> ''.'' \<notin> set (subfolders folder)"
  shows "(if q = ''.'' then M + 3 else Suc (Suc M - length q)) \<le> n \<Longrightarrow> hasContent n T q \<noteq> None"
proof (induction n arbitrary: q)
  case 0
  then show ?case by (simp split: if_splits)
next
  case (Suc n)
  show ?case
  proof (cases "map_of (folders T) q")
    case None
    then show ?thesis by simp
  next
    case (Some folder)
    then have key: "length q \<le> M" using bound by (simp add: folderKeys_map_of)
    have "hasContent n T (subPath q sub) \<noteq> None" if sub: "sub \<in> set (subfolders folder)" for sub
    proof (cases "q = ''.''")
      case True
      with Some sub rootsubs have "sub \<noteq> ''.''" by auto
      moreover from True Suc.prems have "M + 2 \<le> n" by simp
      ultimately show ?thesis
        using True by (intro Suc.IH) (simp add: subPath_def)
    next
      case False
      from False Suc.prems key have "Suc M - length q \<le> n" "length q \<le> M" by simp_all
      then have "Suc (Suc M - length (subPath q sub)) \<le> n"
        using subPath_length [OF False, of sub] by simp
      with subPath_not_dot [OF False, of sub] show ?thesis
        by (intro Suc.IH) simp
    qed
    then have "some_js (\<lambda>sub. hasContent n T (subPath q sub)) (subfolders folder) \<noteq> None"
      by (intro some_js_returns) simp
    with Some show ?thesis by (cases "files folder = []") simp_all
  qed
qed

lemma hasContent_true:
  assumes bound: "\<forall>q \<in> folderKeys (folders T). length q \<le> M"
    and rootsubs: "\<forall>folder. map_of (folders T) ''.'' = Some folder \<longrightarrow> ''.'' \<notin> set (subfolders folder)"
    and allsubs: "\<forall>q folder. map_of (folders T) q = Some folder \<longrightarrow>
                    (\<forall>sub \<in> set (subfolders folder). subPath q sub \<in> folderKeys (folders T))"
    and nonempty: "\<forall>q folder. map_of (folders T) q = Some folder \<longrightarrow> files folder = [] \<longrightarrow>
                    subfolders folder \<noteq> []"
  shows "q \<in> folderKeys (folders T) \<Longrightarrow>
         (if q = ''.'' then M + 3 else Suc (Suc M - length q)) \<le> n \<Longrightarrow> hasContent n T q = Some True"
proof (induction n arbitrary: q)
  case 0
  then show ?case by (simp split: if_splits)
next
  case (Suc n)
  from Suc.prems(1) obtain folder where f: "map_of (folders T) q = Some folder"
    by (auto simp: folderKeys_map_of)
  from Suc.prems(1) bound have key: "length q \<le> M" by simp
  show ?case
  proof (cases "files folder = []")
    case False
    with f show ?thesis by simp
  next
    case True
    have fuel: "(if subPath q sub = ''.'' then M + 3 else Suc (Suc M - length (subPath q sub))) \<le> n"
      if sub: "sub \<in> set (subfolders folder)" for sub
    proof (cases "q = ''.''")
      case True
      with f sub rootsubs have "sub \<noteq> ''.''" by auto
      moreover from True Suc.prems(2) have "M + 2 \<le> n" by simp
      ultimately show ?thesis using True by (simp add: subPath_def)
    next
      case False
      from False Suc.prems(2) key have "Suc M - length q \<le> n" "length q \<le> M" by simp_all
      then have "Suc (Suc M - length (subPath q sub)) \<le> n"
        using subPath_length [OF False, of sub] by simp
      with subPath_not_dot [OF False, of sub] show ?thesis by simp
    qed
    have each: "hasContent n T (subPath q sub) = Some True" if sub: "sub \<in> set (subfolders folder)" for sub
    proof (rule Suc.IH)
      from allsubs f sub show "subPath q sub \<in> folderKeys (folders T)" by blast
      from fuel [OF sub]
      show "(if subPath q sub = ''.'' then M + 3 else Suc (Suc M - length (subPath q sub))) \<le> n" .
    qed
    from nonempty f True obtain sub where "sub \<in> set (subfolders folder)"
      by (cases "subfolders folder") auto
    with each have "some_js (\<lambda>sub. hasContent n T (subPath q sub)) (subfolders folder) = Some True"
      by (intro some_js_True) auto
    with f True show ?thesis by simp
  qed
qed

lemma fuel_enough: "(if q = ''.'' then M + 3 else Suc (Suc M - length q)) \<le> M + 3"
proof (cases "q = ''.''")
  case True
  then show ?thesis by simp
next
  case False
  have "Suc M - length q \<le> Suc M" by (rule diff_le_self)
  with False show ?thesis by simp
qed

lemma collectFolders_all:
  assumes d: "distinct (map fst (folders T))"
    and true: "\<forall>q \<in> folderKeys (folders T). hasContent n T q = Some True"
    and allsubs: "\<forall>q folder. map_of (folders T) q = Some folder \<longrightarrow>
                    (\<forall>sub \<in> set (subfolders folder). subPath q sub \<in> folderKeys (folders T))"
  shows "set fm \<subseteq> set (folders T) \<Longrightarrow> collectFolders n T fm = Some (map snd fm)"
proof (induction fm)
  case Nil
  then show ?case by simp
next
  case (Cons kv fm)
  from Cons.prems have mem: "kv \<in> set (folders T)" by simp
  then have key: "fst kv \<in> folderKeys (folders T)" by (simp add: folderKeys_def)
  from mem have "(fst kv, snd kv) \<in> set (folders T)" by simp
  with d have look: "map_of (folders T) (fst kv) = Some (snd kv)"
    by (simp only: map_of_eq_Some_iff)
  from key true have a: "hasContent n T (fst kv) = Some True" by simp
  have "\<forall>sub \<in> set (subfolders (snd kv)). hasContent n T (subPath (fst kv) sub) = Some True"
    using allsubs look true by blast
  then have b: "filter_js (\<lambda>sub. hasContent n T (subPath (fst kv) sub)) (subfolders (snd kv))
                  = Some (subfolders (snd kv))"
    by (rule filter_js_all)
  from Cons have c: "collectFolders n T fm = Some (map snd fm)" by simp
  show ?case by (simp add: a b c)
qed

lemma mset_insertByPath: "mset (insertByPath le x xs) = add_mset x (mset xs)"
  by (induction xs) auto

lemma mset_sortByPath: "mset (sortByPath le xs) = mset xs"
  by (induction xs) (simp_all add: sortByPath_def mset_insertByPath)


subsection \<open>The tree that is built has content everywhere\<close>

lemma built_allsubs:
  assumes h: "\<forall>a \<in> set analyses.
                hd (split_js (relativePath a)) = ''.'' \<longrightarrow> length (split_js (relativePath a)) \<le> 2"
    and m: "map_of (folders (buildFolderTree analyses)) q = Some folder"
    and s: "sub \<in> set (subfolders folder)"
  shows "subPath q sub \<in> folderKeys (folders (buildFolderTree analyses))"
proof -
  let ?F = "folders (buildFolderTree analyses)"
  from tree_invD(5) [OF buildFolderTree_inv m s]
  obtain p i where p: "p \<in> folderPathOf ` set analyses" "p \<noteq> ''.''"
      and i: "i < length (split_js p)" and q: "q = ancestorPath (split_js p) i"
      and sub: "sub = split_js p ! i"
    by blast
  from hd_first_pass_key [OF h p] have hd: "hd (split_js p) \<noteq> ''.''" .
  note sp = subPath_ancestor [OF hd i, folded q sub]
  show ?thesis
  proof (cases "Suc i < length (split_js p)")
    case True
    from buildFolderTree_linked [OF p True] have "ancestorPath (split_js p) (Suc i) \<in> folderKeys ?F"
      by (rule linked_key)
    with True sp show ?thesis by simp
  next
    case False
    from tree_invD(2) [OF buildFolderTree_inv] p(1) have "p \<in> folderKeys ?F" by blast
    with False sp show ?thesis by simp
  qed
qed

lemma built_rootsubs:
  assumes h: "\<forall>a \<in> set analyses.
                hd (split_js (relativePath a)) = ''.'' \<longrightarrow> length (split_js (relativePath a)) \<le> 2"
    and m: "map_of (folders (buildFolderTree analyses)) ''.'' = Some folder"
  shows "''.'' \<notin> set (subfolders folder)"
proof
  assume "''.'' \<in> set (subfolders folder)"
  from tree_invD(5) [OF buildFolderTree_inv m this]
  obtain p i where p: "p \<in> folderPathOf ` set analyses" "p \<noteq> ''.''"
      and i: "i < length (split_js p)" and q: "''.'' = ancestorPath (split_js p) i"
      and sub: "''.'' = split_js p ! i"
    by blast
  from hd_first_pass_key [OF h p] have hd: "hd (split_js p) \<noteq> ''.''" .
  show False
  proof (cases "i = 0")
    case True
    with sub i have "hd (split_js p) = ''.''" by (cases "split_js p") auto
    with hd show False by simp
  next
    case False
    with q have "join_js (take i (split_js p)) = ''.''" by (simp add: ancestorPath_def)
    moreover from False i have "join_js (take i (split_js p)) \<noteq> ''.''"
      by (intro ancestorPath_not_dot [OF hd]) simp_all
    ultimately show False by simp
  qed
qed

lemma built_nonempty:
  assumes m: "map_of (folders (buildFolderTree analyses)) q = Some folder"
    and e: "files folder = []"
  shows "subfolders folder \<noteq> []"
proof -
  let ?F = "folders (buildFolderTree analyses)"
  from tree_invD(4) [OF buildFolderTree_inv m] e have nk: "q \<notin> folderPathOf ` set analyses" by simp
  from m have "q \<in> folderKeys ?F" by (simp add: folderKeys_map_of)
  from tree_invD(3) [OF buildFolderTree_inv this nk]
  obtain p i where p: "p \<in> folderPathOf ` set analyses" "p \<noteq> ''.''"
      and i: "i < length (split_js p)" and q: "q = ancestorPath (split_js p) i"
    by blast
  from buildFolderTree_linked [OF p i] m q have "split_js p ! i \<in> set (subfolders folder)"
    by (auto simp: linked_def)
  then show ?thesis by auto
qed

text \<open>Every folder of the built tree has a file in itself or in a folder below it.\<close>

lemma built_file_below:
  assumes "q \<in> folderKeys (folders (buildFolderTree analyses))"
  shows "\<exists>p folder. map_of (folders (buildFolderTree analyses)) p = Some folder
           \<and> files folder \<noteq> [] \<and> (p = q \<or> q \<in> set (ancestorPaths p))"
proof -
  let ?F = "folders (buildFolderTree analyses)"
  have has: "\<exists>folder. map_of ?F p = Some folder \<and> files folder \<noteq> []"
    if "p \<in> folderPathOf ` set analyses" for p
  proof -
    from tree_invD(2) [OF buildFolderTree_inv] that have "p \<in> folderKeys ?F" by blast
    then obtain folder where f: "map_of ?F p = Some folder" by (auto simp: folderKeys_map_of)
    from tree_invD(4) [OF buildFolderTree_inv f] that have "files folder \<noteq> []" by simp
    with f show ?thesis by blast
  qed
  show ?thesis
  proof (cases "q \<in> folderPathOf ` set analyses")
    case True
    from has [OF True] show ?thesis by blast
  next
    case False
    from tree_invD(3) [OF buildFolderTree_inv assms False]
    obtain p i where p: "p \<in> folderPathOf ` set analyses"
        and i: "i < length (split_js p)" and q: "q = ancestorPath (split_js p) i"
      by blast
    from i q have "q \<in> set (ancestorPaths p)" by (simp add: ancestorPaths_def)
    with has [OF p] show ?thesis by blast
  qed
qed

text \<open>
  Claim C10, amended. In the tree \<open>buildFolderTree\<close> returns for any list of analyses, every
  folder of the map has a file in itself or in a folder of the map below it. If moreover no
  relative path begins with the part \<open>.\<close> followed by two or more further parts (as
  \<open>./x/a.ts\<close> does), then with enough room on the stack \<open>hasContent\<close>
  returns true for every folder of the map, the loop of \<open>getFoldersWithContent\<close> keeps every
  folder with its list of subfolders unchanged, and the list returned holds exactly the
  folders of the map: the exclusion of folders without content removes nothing.
\<close>

theorem getFoldersWithContent_keeps_every_folder:
  "(\<forall>q \<in> folderKeys (folders (buildFolderTree analyses)).
      \<exists>p folder. map_of (folders (buildFolderTree analyses)) p = Some folder
         \<and> files folder \<noteq> [] \<and> (p = q \<or> q \<in> set (ancestorPaths p)))
   \<and> ((\<forall>a \<in> set analyses.
          hd (split_js (relativePath a)) = ''.'' \<longrightarrow> length (split_js (relativePath a)) \<le> 2) \<longrightarrow>
        (\<exists>n. \<forall>m \<ge> n.
           (\<forall>q \<in> folderKeys (folders (buildFolderTree analyses)).
              hasContent m (buildFolderTree analyses) q = Some True)
           \<and> collectFolders m (buildFolderTree analyses) (folders (buildFolderTree analyses))
               = Some (map snd (folders (buildFolderTree analyses)))
           \<and> (\<exists>result. getFoldersWithContent m le (buildFolderTree analyses) = Some result
                 \<and> mset result = mset (map snd (folders (buildFolderTree analyses))))))"
proof (intro conjI ballI impI)
  fix q assume "q \<in> folderKeys (folders (buildFolderTree analyses))"
  then show "\<exists>p folder. map_of (folders (buildFolderTree analyses)) p = Some folder
         \<and> files folder \<noteq> [] \<and> (p = q \<or> q \<in> set (ancestorPaths p))"
    by (rule built_file_below)
next
  let ?T = "buildFolderTree analyses"
  let ?M = "sum_list (map length (map fst (folders ?T)))"
  assume h: "\<forall>a \<in> set analyses.
                hd (split_js (relativePath a)) = ''.'' \<longrightarrow> length (split_js (relativePath a)) \<le> 2"
  have bound: "\<forall>q \<in> folderKeys (folders ?T). length q \<le> ?M"
  proof
    fix q assume "q \<in> folderKeys (folders ?T)"
    then have "length q \<in> set (map length (map fst (folders ?T)))"
      by (auto simp: folderKeys_def)
    then show "length q \<le> ?M" by (intro member_le_sum_list) simp_all
  qed
  have rootsubs: "\<forall>folder. map_of (folders ?T) ''.'' = Some folder \<longrightarrow> ''.'' \<notin> set (subfolders folder)"
    using built_rootsubs [OF h] by blast
  have allsubs: "\<forall>q folder. map_of (folders ?T) q = Some folder \<longrightarrow>
                    (\<forall>sub \<in> set (subfolders folder). subPath q sub \<in> folderKeys (folders ?T))"
    using built_allsubs [OF h] by blast
  have nonempty: "\<forall>q folder. map_of (folders ?T) q = Some folder \<longrightarrow> files folder = [] \<longrightarrow>
                    subfolders folder \<noteq> []"
    using built_nonempty by blast
  have d: "distinct (map fst (folders ?T))"
    by (rule tree_invD(1) [OF buildFolderTree_inv])
  have "(\<forall>q \<in> folderKeys (folders ?T). hasContent m ?T q = Some True)
           \<and> collectFolders m ?T (folders ?T) = Some (map snd (folders ?T))
           \<and> (\<exists>result. getFoldersWithContent m le ?T = Some result
                 \<and> mset result = mset (map snd (folders ?T)))"
    if m: "?M + 3 \<le> m" for m
  proof -
    have true: "\<forall>q \<in> folderKeys (folders ?T). hasContent m ?T q = Some True"
    proof
      fix q assume q: "q \<in> folderKeys (folders ?T)"
      from fuel_enough [of q ?M] m
      have "(if q = ''.'' then ?M + 3 else Suc (Suc ?M - length q)) \<le> m" by (rule le_trans)
      with q show "hasContent m ?T q = Some True"
        by (rule hasContent_true [OF bound rootsubs allsubs nonempty])
    qed
    have all: "collectFolders m ?T (folders ?T) = Some (map snd (folders ?T))"
      by (rule collectFolders_all [OF d true allsubs]) simp
    then have "getFoldersWithContent m le ?T = Some (sortByPath le (map snd (folders ?T)))"
      by (simp add: getFoldersWithContent_def)
    with true all show ?thesis by (simp add: mset_sortByPath)
  qed
  then show "\<exists>n. \<forall>m \<ge> n.
           (\<forall>q \<in> folderKeys (folders ?T). hasContent m ?T q = Some True)
           \<and> collectFolders m ?T (folders ?T) = Some (map snd (folders ?T))
           \<and> (\<exists>result. getFoldersWithContent m le ?T = Some result
                 \<and> mset result = mset (map snd (folders ?T)))"
    by blast
qed

subsection \<open>A path that begins with a dot\<close>

lemma dotTree_folders:
  "folders (buildFolderTree [analysisAt ''./x/a.ts'']) =
     [(''./x'', \<lparr>folder_path = ''./x'', name = ''x'', files = [analysisAt ''./x/a.ts''],
                 subfolders = [], depth = 2\<rparr>),
      (''.'', \<lparr>folder_path = ''.'', name = ''root'', files = [], subfolders = [''.'', ''x''],
               depth = 0\<rparr>)]"
  by (simp add: buildFolderTree_def addFile_def linkAncestors_def linkAncestor_def analysisAt_def
        modify_def Let_def upt_conv_Cons)

lemma dotTree_root_never_returns: "hasContent n (buildFolderTree [analysisAt ''./x/a.ts'']) ''.'' = None"
proof (induction n)
  case 0
  then show ?case by simp
next
  case (Suc n)
  then show ?case by (simp add: dotTree_folders subPath_def)
qed

text \<open>
  Claim C10 as it stands, for every list of analyses, fails. For the one file \<open>./x/a.ts\<close>
  the map holds the folder \<open>./x\<close> and the synthesized root \<open>.\<close>, which has no files and lists
  the subfolders \<open>.\<close> and \<open>x\<close>. \<open>hasContent\<close> of the root calls itself on the path of the
  subfolder \<open>.\<close>, which is the root again, so it never returns, however deep the stack; and
  \<open>getFoldersWithContent\<close> returns no list at all.
\<close>

theorem getFoldersWithContent_dot_counterexample:
  "''.'' \<in> folderKeys (folders (buildFolderTree [analysisAt ''./x/a.ts'']))
   \<and> (\<forall>n. hasContent n (buildFolderTree [analysisAt ''./x/a.ts'']) ''.'' = None)
   \<and> (\<forall>n. getFoldersWithContent n (\<le>) (buildFolderTree [analysisAt ''./x/a.ts'']) = None)"
proof (intro conjI allI)
  show "''.'' \<in> folderKeys (folders (buildFolderTree [analysisAt ''./x/a.ts'']))"
    by (simp add: dotTree_folders folderKeys_def)
  show "hasContent n (buildFolderTree [analysisAt ''./x/a.ts'']) ''.'' = None" for n
    by (rule dotTree_root_never_returns)
  show "getFoldersWithContent n (\<le>) (buildFolderTree [analysisAt ''./x/a.ts'']) = None" for n
    by (simp add: getFoldersWithContent_def dotTree_folders [THEN arg_cong, of "collectFolders n (buildFolderTree [analysisAt ''./x/a.ts''])"]
          dotTree_root_never_returns split: option.splits)
qed

text \<open>
  An instance: the three files. With room for three nested calls the list returned holds
  the three folders, each with its subfolders.
\<close>

theorem getFoldersWithContent_keeps_every_folder_witness:
  "list_all (\<lambda>a. hd (split_js (relativePath a)) \<noteq> ''.'' \<or> length (split_js (relativePath a)) \<le> 2)
     threeAnalyses
   \<and> (\<exists>n. \<forall>m \<ge> n. \<exists>result.
          getFoldersWithContent m (\<le>) (buildFolderTree threeAnalyses) = Some result
          \<and> mset result = mset (map snd (folders (buildFolderTree threeAnalyses))))
   \<and> map_option (map (\<lambda>folder. (folder_path folder, subfolders folder)))
        (getFoldersWithContent 3 (\<le>) (buildFolderTree threeAnalyses))
       = Some [(''.'', [''sub'']), (''sub'', [''deep'']), (''sub/deep'', [])]"
proof -
  have h: "\<forall>a \<in> set threeAnalyses.
             hd (split_js (relativePath a)) = ''.'' \<longrightarrow> length (split_js (relativePath a)) \<le> 2"
    by (simp add: threeAnalyses_def analysisAt_def)
  from getFoldersWithContent_keeps_every_folder [of threeAnalyses "(\<le>)"] h
  have "\<exists>n. \<forall>m \<ge> n.
           (\<forall>q \<in> folderKeys (folders (buildFolderTree threeAnalyses)).
              hasContent m (buildFolderTree threeAnalyses) q = Some True)
           \<and> collectFolders m (buildFolderTree threeAnalyses) (folders (buildFolderTree threeAnalyses))
               = Some (map snd (folders (buildFolderTree threeAnalyses)))
           \<and> (\<exists>result. getFoldersWithContent m (\<le>) (buildFolderTree threeAnalyses) = Some result
                 \<and> mset result = mset (map snd (folders (buildFolderTree threeAnalyses))))"
    by blast
  then have e: "\<exists>n. \<forall>m \<ge> n. \<exists>result.
          getFoldersWithContent m (\<le>) (buildFolderTree threeAnalyses) = Some result
          \<and> mset result = mset (map snd (folders (buildFolderTree threeAnalyses)))"
    by blast
  have t: "buildFolderTree threeAnalyses =
      \<lparr>folders =
         [(''.'', \<lparr>folder_path = ''.'', name = ''root'', files = [analysisAt ''a.ts''],
                  subfolders = [''sub''], depth = 0\<rparr>),
          (''sub'', \<lparr>folder_path = ''sub'', name = ''sub'', files = [analysisAt ''sub/b.ts''],
                    subfolders = [''deep''], depth = 1\<rparr>),
          (''sub/deep'', \<lparr>folder_path = ''sub/deep'', name = ''deep'',
                         files = [analysisAt ''sub/deep/c.ts''], subfolders = [], depth = 2\<rparr>)],
       root = ''.''\<rparr>"
    by (simp add: threeAnalyses_def buildFolderTree_def addFile_def linkAncestors_def
          linkAncestor_def analysisAt_def modify_def Let_def upt_conv_Cons)
  have c: "map_option (map (\<lambda>folder. (folder_path folder, subfolders folder)))
        (getFoldersWithContent 3 (\<le>) (buildFolderTree threeAnalyses))
       = Some [(''.'', [''sub'']), (''sub'', [''deep'']), (''sub/deep'', [])]"
    unfolding t
    by (simp add: getFoldersWithContent_def sortByPath_def subPath_def numeral_3_eq_3)
  from h e c show ?thesis by (simp add: list_all_iff)
qed

section \<open>Properties of discoverFiles\<close>

lemma globAll_empty:
  "\<forall>pattern \<in> set patterns. glob env pattern rootDir = Inr [] \<Longrightarrow> globAll env rootDir patterns = Inr []"
  by (induction patterns) auto

text \<open>
  Claim C9, amended. \<open>discoverFiles\<close> has no failure for a root directory that does not
  exist, and it never tests the root directory itself: whatever \<^verbatim>\<open>existsSync\<close> says of the
  root, when no \<open>.gitignore\<close> is found under it and every call of \<^verbatim>\<open>glob\<close> finds no match,
  as under a root that does not exist, \<open>discoverFiles\<close> returns the empty list of files.
\<close>

theorem discoverFiles_no_root_check:
  "\<not> fs_existsSync env (path_resolve env rootDir ''.gitignore'')
     \<and> (\<forall>pattern \<in> set (include_patterns cfg). glob env pattern rootDir = Inr [])
   \<longrightarrow> discoverFiles env rootDir cfg = Inr []"
proof
  assume a: "\<not> fs_existsSync env (path_resolve env rootDir ''.gitignore'')
        \<and> (\<forall>pattern \<in> set (include_patterns cfg). glob env pattern rootDir = Inr [])"
  then have "globAll env rootDir (include_patterns cfg) = Inr []"
    by (intro globAll_empty) simp
  with a show "discoverFiles env rootDir cfg = Inr []"
    by (simp add: discoverFiles_def Let_def uniqueOf_def)
qed

text \<open>An instance: the default configuration under a root that does not exist.\<close>

theorem discoverFiles_no_root_check_witness:
  "\<not> fs_existsSync missingRootEnv (path_resolve missingRootEnv ''/missing'' ''.gitignore'')
   \<and> list_all (\<lambda>pattern. glob missingRootEnv pattern ''/missing'' = Inr []) (include_patterns DEFAULT_CONFIG)
   \<and> discoverFiles missingRootEnv ''/missing'' DEFAULT_CONFIG = Inr []"
proof -
  have a: "\<not> fs_existsSync missingRootEnv (path_resolve missingRootEnv ''/missing'' ''.gitignore'')"
    by (simp add: missingRootEnv_def)
  have b: "\<forall>pattern \<in> set (include_patterns DEFAULT_CONFIG). glob missingRootEnv pattern ''/missing'' = Inr []"
    by (simp add: missingRootEnv_def)
  from discoverFiles_no_root_check [of missingRootEnv "''/missing''" DEFAULT_CONFIG] a b
  have "discoverFiles missingRootEnv ''/missing'' DEFAULT_CONFIG = Inr []"
    by blast
  with a b show ?thesis by (simp add: list_all_iff)
qed

text \<open>
  Claim C9 says that \<open>discoverFiles\<close> fails when the root directory does not exist. It does
  not: for a root that does not exist it returns the empty list of files.
\<close>

theorem discoverFiles_missing_root_counterexample:
  "\<not> fs_existsSync missingRootEnv ''/no/such/dir''
   \<and> discoverFiles missingRootEnv ''/no/such/dir'' DEFAULT_CONFIG = Inr []"
  by (simp add: discoverFiles_def missingRootEnv_def DEFAULT_CONFIG_def uniqueOf_def Let_def)

end
